theory Spec2Isabelle
  imports Main "HOL-Library.Word"
begin

unbundle bit_operations_syntax

section \<open>Exceptions\<close>

text \<open>
  The exceptions the modelled code raises, as values. \<open>UnicodeDecodeError\<close> and
  \<open>UnicodeEncodeError\<close> are subclasses of Python's \<open>ValueError\<close>; \<open>DecoderError\<close> and
  \<open>EncoderError\<close> are the codec's own classes (src/ipc/codecs.py), which derive from
  \<open>IPCError\<close> and from no built-in error class. \<open>StructError\<close> is \<open>struct.error\<close>,
  \<open>ClosedResourceError\<close> is trio's, and \<open>TransportError\<close> is the transport's error with
  its message.
\<close>

datatype exc =
    ValueError
  | UnicodeDecodeError
  | UnicodeEncodeError
  | IndexError
  | StructError
  | OverflowError
  | TypeError
  | OSError
  | EncoderError
  | DecoderError
  | ClosedResourceError
  | RuntimeError
  | TransportError string

section \<open>src/ipc/utils.py: WrappedCounter\<close>

record WrappedCounter =
  wc_start :: int
  wc_limit :: int
  wc_value :: int

text \<open>\<open>WrappedCounter.__init__\<close>: raises \<open>ValueError\<close> when \<open>start >= limit\<close>.\<close>

definition WrappedCounter_init :: "int \<Rightarrow> int \<Rightarrow> exc + WrappedCounter" where
  "WrappedCounter_init start limit =
     (if start \<ge> limit then Inl ValueError
      else Inr \<lparr>wc_start = start, wc_limit = limit, wc_value = start\<rparr>)"

text \<open>\<open>WrappedCounter.next\<close>: the returned number and the updated counter.\<close>

definition wc_next :: "WrappedCounter \<Rightarrow> int \<times> WrappedCounter" where
  "wc_next self =
     (if wc_value self \<ge> wc_limit self
      then (wc_limit self, self\<lparr>wc_value := wc_start self\<rparr>)
      else (wc_value self, self\<lparr>wc_value := wc_value self + 1\<rparr>))"

text \<open>\<open>n\<close> successive calls of \<open>next()\<close>: the numbers returned, in order, and the final counter.\<close>

fun wc_run :: "nat \<Rightarrow> WrappedCounter \<Rightarrow> int list \<times> WrappedCounter" where
  "wc_run 0 c = ([], c)"
| "wc_run (Suc n) c =
     (case wc_next c of (v, c') \<Rightarrow> (case wc_run n c' of (vs, c'') \<Rightarrow> (v # vs, c'')))"

section \<open>WrappedCounter: one cycle\<close>

lemma wc_run_tail:
  "wc_start c \<le> wc_value c \<Longrightarrow> wc_value c \<le> wc_limit c \<Longrightarrow> n = nat (wc_limit c - wc_value c) \<Longrightarrow>
   wc_run (Suc n) c = ([wc_value c..wc_limit c], c\<lparr>wc_value := wc_start c\<rparr>)"
proof (induction n arbitrary: c)
  case 0
  then have "wc_value c = wc_limit c" by simp
  then show ?case by (simp add: wc_next_def)
next
  case (Suc n)
  let ?c' = "c\<lparr>wc_value := wc_value c + 1\<rparr>"
  from Suc.prems have lt: "wc_value c < wc_limit c" by simp
  then have nx: "wc_next c = (wc_value c, ?c')" by (simp add: wc_next_def)
  have "wc_run (Suc n) ?c' = ([wc_value ?c'..wc_limit ?c'], ?c'\<lparr>wc_value := wc_start ?c'\<rparr>)"
    using Suc.prems by (intro Suc.IH) auto
  moreover have "[wc_value c..wc_limit c] = wc_value c # [wc_value c + 1..wc_limit c]"
    using lt by (simp add: upto_rec1)
  ultimately show ?case using nx by simp
qed

text \<open>
  C2 (as the code has it). For \<open>start < limit\<close> the constructor succeeds, and
  \<open>limit - start + 1\<close> calls of \<open>next()\<close> on the fresh counter return
  \<open>start, start + 1, \<dots>, limit\<close> in this order, each number of the closed interval once,
  and leave the counter in its initial state, so that the cycle repeats. The bound
  \<open>limit\<close> itself is produced: it is "the maximal value" of the class's docstring.
  For \<open>start \<ge> limit\<close> the constructor raises \<open>ValueError\<close>.
\<close>

theorem WrappedCounter_cycle:
  "(start < limit \<longrightarrow>
      (\<exists>c. WrappedCounter_init start limit = Inr c \<and>
           wc_run (nat (limit - start + 1)) c = ([start..limit], c))) \<and>
   (start \<ge> limit \<longrightarrow> WrappedCounter_init start limit = Inl ValueError)"
proof (intro conjI impI)
  assume lt: "start < limit"
  let ?c = "\<lparr>wc_start = start, wc_limit = limit, wc_value = start\<rparr>"
  have "wc_run (Suc (nat (limit - start))) ?c = ([wc_value ?c..wc_limit ?c], ?c\<lparr>wc_value := wc_start ?c\<rparr>)"
    using lt by (intro wc_run_tail) auto
  moreover have "nat (limit - start + 1) = Suc (nat (limit - start))" using lt by simp
  ultimately have "wc_run (nat (limit - start + 1)) ?c = ([start..limit], ?c)" by simp
  then show "\<exists>c. WrappedCounter_init start limit = Inr c \<and>
           wc_run (nat (limit - start + 1)) c = ([start..limit], c)"
    using lt by (simp add: WrappedCounter_init_def)
next
  assume "start \<ge> limit"
  then show "WrappedCounter_init start limit = Inl ValueError"
    by (simp add: WrappedCounter_init_def)
qed

theorem WrappedCounter_cycle_witness:
  "WrappedCounter_init 1 3 = Inr \<lparr>wc_start = 1, wc_limit = 3, wc_value = 1\<rparr> \<and>
   wc_run 3 \<lparr>wc_start = 1, wc_limit = 3, wc_value = 1\<rparr>
     = ([1, 2, 3], \<lparr>wc_start = 1, wc_limit = 3, wc_value = 1\<rparr>) \<and>
   WrappedCounter_init 3 3 = Inl ValueError"
  using WrappedCounter_cycle [of 1 3] WrappedCounter_cycle [of 3 3]
  by (simp add: WrappedCounter_init_def upto_rec1)

text \<open>
  C2 as stated fails: the counter built with \<open>(0, 1)\<close> returns \<open>0\<close> and then \<open>1\<close>, the
  limit itself, which is outside the half-open interval \<open>[0, 1)\<close>.
\<close>

theorem WrappedCounter_half_open_counterexample:
  "WrappedCounter_init 0 1 = Inr \<lparr>wc_start = 0, wc_limit = 1, wc_value = 0\<rparr> \<and>
   fst (wc_run 2 \<lparr>wc_start = 0, wc_limit = 1, wc_value = 0\<rparr>) = [0, 1] \<and>
   \<not> (fst (wc_run 2 \<lparr>wc_start = 0, wc_limit = 1, wc_value = 0\<rparr>) ! 1 < (1::int))"
  by (simp add: WrappedCounter_init_def wc_next_def numeral_2_eq_2)

section \<open>src/ipc/types.py: Fd\<close>

text \<open>
  \<open>Fd.take\<close> and \<open>Fd.close\<close> call \<open>os.dup\<close> and \<open>os.close\<close>, so the model carries the
  descriptor table of the process: the descriptors that are open, and the limit on
  descriptor numbers (\<open>RLIMIT_NOFILE\<close>).
\<close>

record process =
  open_fds :: "int list"
  max_fds :: int

text \<open>
  \<open>os.dup(fd)\<close>, after dup(2): the lowest descriptor number that is not open, which becomes
  open; \<open>OSError\<close> when \<open>fd\<close> is not open (EBADF) or no number below the limit is free
  (EMFILE).
\<close>

definition os_dup :: "process \<Rightarrow> int \<Rightarrow> (exc + int) \<times> process" where
  "os_dup p fd =
     (if fd \<notin> set (open_fds p) then (Inl OSError, p)
      else (case List.find (\<lambda>n. n \<notin> set (open_fds p)) [0..max_fds p - 1] of
              None \<Rightarrow> (Inl OSError, p)
            | Some n \<Rightarrow> (Inr n, p\<lparr>open_fds := n # open_fds p\<rparr>)))"

text \<open>\<open>os.close(fd)\<close>: \<open>OSError\<close> (EBADF) when \<open>fd\<close> is not open.\<close>

definition os_close :: "process \<Rightarrow> int \<Rightarrow> (exc + unit) \<times> process" where
  "os_close p fd =
     (if fd \<notin> set (open_fds p) then (Inl OSError, p)
      else (Inr (), p\<lparr>open_fds := removeAll fd (open_fds p)\<rparr>))"

record Fd =
  fd_value :: int
  fd_auto_close :: bool

text \<open>\<open>Fd.__init__(value, duplicate)\<close>.\<close>

definition Fd_init :: "process \<Rightarrow> int \<Rightarrow> bool \<Rightarrow> (exc + Fd) \<times> process" where
  "Fd_init p v duplicate =
     (if v < 0 then (Inl ValueError, p)
      else if duplicate then
        (case os_dup p v of
           (Inl e, p') \<Rightarrow> (Inl e, p')
         | (Inr v', p') \<Rightarrow> (Inr \<lparr>fd_value = v', fd_auto_close = True\<rparr>, p'))
      else (Inr \<lparr>fd_value = v, fd_auto_close = True\<rparr>, p))"

text \<open>The property \<open>Fd.owned\<close> and \<open>Fd.get\<close>.\<close>

definition owned :: "Fd \<Rightarrow> bool" where
  "owned self = fd_auto_close self"

definition get :: "Fd \<Rightarrow> int" where
  "get self = fd_value self"

text \<open>\<open>Fd.take\<close>: the result (or the exception), the handle afterwards, the process afterwards.\<close>

definition take_fd :: "Fd \<Rightarrow> process \<Rightarrow> (exc + int) \<times> Fd \<times> process" where
  "take_fd self p =
     (if fd_auto_close self then (Inr (fd_value self), self\<lparr>fd_auto_close := False\<rparr>, p)
      else (case os_dup p (fd_value self) of (r, p') \<Rightarrow> (r, self, p')))"

text \<open>\<open>Fd.close\<close>.\<close>

definition close_fd :: "Fd \<Rightarrow> process \<Rightarrow> (exc + unit) \<times> Fd \<times> process" where
  "close_fd self p =
     (if fd_auto_close self then
        (case os_close p (fd_value self) of (r, p') \<Rightarrow> (r, self\<lparr>fd_auto_close := False\<rparr>, p'))
      else (Inr (), self, p))"

section \<open>Fd.take\<close>

lemma find_free_Some:
  "List.find (\<lambda>n. n \<notin> set xs) ns = Some n \<Longrightarrow> n \<notin> set xs \<and> n \<in> set ns"
  by (induction ns) (auto split: if_splits)

lemma os_dup_ok:
  assumes "fd \<in> set (open_fds p)" and "n0 \<in> set [0..max_fds p - 1]" and "n0 \<notin> set (open_fds p)"
  shows "\<exists>n. os_dup p fd = (Inr n, p\<lparr>open_fds := n # open_fds p\<rparr>) \<and> n \<notin> set (open_fds p) \<and> n \<noteq> fd"
proof -
  have "List.find (\<lambda>n. n \<notin> set (open_fds p)) [0..max_fds p - 1] \<noteq> None"
    using assms(2,3) by (auto simp: find_None_iff)
  then obtain n where n: "List.find (\<lambda>n. n \<notin> set (open_fds p)) [0..max_fds p - 1] = Some n"
    by blast
  then have "n \<notin> set (open_fds p)" by (auto dest: find_free_Some)
  with n assms(1) show ?thesis by (auto simp: os_dup_def)
qed

lemma os_dup_fail:
  "fd \<notin> set (open_fds p) \<or> (\<forall>n. n \<in> set [0..max_fds p - 1] \<longrightarrow> n \<in> set (open_fds p)) \<Longrightarrow>
   os_dup p fd = (Inl OSError, p)"
  by (auto simp: os_dup_def split: option.splits dest!: find_free_Some)

text \<open>
  C5 (as the code has it). On an owned handle \<open>take()\<close> clears the owned flag and returns
  the stored descriptor, without touching the descriptor table. On a handle that is not
  owned it returns what \<open>os.dup\<close> of the stored descriptor returns: a descriptor that was
  not open before and differs from the stored one, when the stored descriptor is open and
  a descriptor number is free; and it raises the \<open>OSError\<close> of \<open>os.dup\<close> otherwise. The
  stored descriptor value is the same afterwards in every case.
\<close>

theorem Fd_take:
  "take_fd self p = (r, self', p') \<Longrightarrow>
     fd_value self' = fd_value self \<and> \<not> fd_auto_close self' \<and>
     (fd_auto_close self \<longrightarrow> r = Inr (fd_value self) \<and> p' = p) \<and>
     (\<not> fd_auto_close self \<and> fd_value self \<in> set (open_fds p) \<and>
        (\<exists>n. n \<in> set [0..max_fds p - 1] \<and> n \<notin> set (open_fds p)) \<longrightarrow>
        (\<exists>n. r = Inr n \<and> n \<notin> set (open_fds p) \<and> n \<noteq> fd_value self \<and>
             p' = p\<lparr>open_fds := n # open_fds p\<rparr>)) \<and>
     (\<not> fd_auto_close self \<and>
        (fd_value self \<notin> set (open_fds p) \<or>
         (\<forall>n. n \<in> set [0..max_fds p - 1] \<longrightarrow> n \<in> set (open_fds p))) \<longrightarrow>
        r = Inl OSError \<and> p' = p)"
proof (cases "fd_auto_close self")
  case True
  assume "take_fd self p = (r, self', p')"
  with True show ?thesis by (auto simp: take_fd_def)
next
  case False
  assume t: "take_fd self p = (r, self', p')"
  with False have r: "os_dup p (fd_value self) = (r, p')" and s: "self' = self"
    by (auto simp: take_fd_def split: prod.splits)
  have ok: "\<exists>n. r = Inr n \<and> n \<notin> set (open_fds p) \<and> n \<noteq> fd_value self \<and>
             p' = p\<lparr>open_fds := n # open_fds p\<rparr>"
    if "fd_value self \<in> set (open_fds p)"
      and "\<exists>n. n \<in> set [0..max_fds p - 1] \<and> n \<notin> set (open_fds p)"
  proof -
    from that obtain n0 where "n0 \<in> set [0..max_fds p - 1]" "n0 \<notin> set (open_fds p)" by blast
    with that(1) os_dup_ok [of "fd_value self" p n0] r show ?thesis by auto
  qed
  have bad: "r = Inl OSError \<and> p' = p"
    if "fd_value self \<notin> set (open_fds p) \<or>
         (\<forall>n. n \<in> set [0..max_fds p - 1] \<longrightarrow> n \<in> set (open_fds p))"
    using os_dup_fail [OF that, of] r by auto
  from False s ok bad show ?thesis by blast
qed

theorem Fd_take_witness:
  "take_fd \<lparr>fd_value = 3, fd_auto_close = True\<rparr> \<lparr>open_fds = [0, 1, 2, 3], max_fds = 8\<rparr>
     = (Inr 3, \<lparr>fd_value = 3, fd_auto_close = False\<rparr>, \<lparr>open_fds = [0, 1, 2, 3], max_fds = 8\<rparr>) \<and>
   take_fd \<lparr>fd_value = 3, fd_auto_close = False\<rparr> \<lparr>open_fds = [0, 1, 2, 3], max_fds = 8\<rparr>
     = (Inr 4, \<lparr>fd_value = 3, fd_auto_close = False\<rparr>, \<lparr>open_fds = [4, 0, 1, 2, 3], max_fds = 8\<rparr>)"
proof -
  let ?p = "\<lparr>open_fds = [0, 1, 2, 3], max_fds = 8\<rparr>"
  have up: "[0..(7::int)] = [0, 1, 2, 3, 4, 5, 6, 7]" by (simp add: upto_rec1)
  have a: "take_fd \<lparr>fd_value = 3, fd_auto_close = True\<rparr> ?p
     = (Inr 3, \<lparr>fd_value = 3, fd_auto_close = False\<rparr>, ?p)"
    by (simp add: take_fd_def)
  have b: "take_fd \<lparr>fd_value = 3, fd_auto_close = False\<rparr> ?p
     = (Inr 4, \<lparr>fd_value = 3, fd_auto_close = False\<rparr>, \<lparr>open_fds = [4, 0, 1, 2, 3], max_fds = 8\<rparr>)"
    by (simp add: take_fd_def os_dup_def up)
  from Fd_take [OF a] Fd_take [OF b] a b show ?thesis by simp
qed

text \<open>
  C5 as stated fails where it says that \<open>take()\<close> on a handle that is not owned never
  raises: after \<open>close()\<close> the handle is not owned and its descriptor is closed, and
  \<open>take()\<close> raises the \<open>OSError\<close> of \<open>os.dup\<close>.
\<close>

theorem Fd_take_raises_counterexample:
  "Fd_init \<lparr>open_fds = [0, 1, 2, 3], max_fds = 8\<rparr> 3 False
     = (Inr \<lparr>fd_value = 3, fd_auto_close = True\<rparr>, \<lparr>open_fds = [0, 1, 2, 3], max_fds = 8\<rparr>) \<and>
   close_fd \<lparr>fd_value = 3, fd_auto_close = True\<rparr> \<lparr>open_fds = [0, 1, 2, 3], max_fds = 8\<rparr>
     = (Inr (), \<lparr>fd_value = 3, fd_auto_close = False\<rparr>, \<lparr>open_fds = [0, 1, 2], max_fds = 8\<rparr>) \<and>
   take_fd \<lparr>fd_value = 3, fd_auto_close = False\<rparr> \<lparr>open_fds = [0, 1, 2], max_fds = 8\<rparr>
     = (Inl OSError, \<lparr>fd_value = 3, fd_auto_close = False\<rparr>, \<lparr>open_fds = [0, 1, 2], max_fds = 8\<rparr>)"
  by (simp add: Fd_init_def close_fd_def os_close_def take_fd_def os_dup_def)

section \<open>src/ipc/connection.py: Connection\<close>

type_synonym byte = "8 word"
type_synonym bytes = "byte list"

text \<open>\<open>INT32_MAX\<close> of src/ipc/types.py.\<close>

definition INT32_MAX :: int where
  "INT32_MAX = 2147483647"

text \<open>The values of the message flags: \<open>Flags.REQUEST.value\<close> and so on.\<close>

definition REQUEST :: int where "REQUEST = 1"
definition RESPONSE :: int where "RESPONSE = 2"
definition NOTIFICATION :: int where "NOTIFICATION = 4"

text \<open>
  Modelled from the spec: the class \<open>Message\<close> of ipc/transport.py, which is not among the
  sources. The spec gives the framing unit as the record \<open>(num, flags, payload, fds)\<close>, and
  the connection builds it as \<open>Message(num, flags, data, fds)\<close>.
\<close>

record Message =
  msg_num :: int
  msg_flags :: int
  msg_data :: bytes
  msg_fds :: "Fd list"

text \<open>
  A value that the attribute \<open>address\<close> can hold: \<open>None\<close>, a bytes object, or the class
  object \<open>bytes\<close> itself.
\<close>

datatype address = AddrNone | AddrBytes bytes | BytesClass

text \<open>
  The state of a \<open>Connection\<close>. A result cell (\<open>Result()\<close>) is named by a number; the
  cells are allocated in order (\<open>conn_cells\<close> counts them). \<open>conn_outbox_sender\<close> says
  whether \<open>_outbox_sender\<close> is set, \<open>conn_scope\<close> whether \<open>_scope\<close> is set, and
  \<open>conn_outbox\<close> holds the triples handed to the outbox channel, in the order of
  submission. The handlers and the transport factory are callables and are left out.
\<close>

record Connection =
  conn_num :: int
  conn_address :: address
  conn_socket :: "nat option"
  conn_error :: "exc option"
  conn_scope :: bool
  conn_requests :: "int \<rightharpoonup> nat"
  conn_counter :: WrappedCounter
  conn_outbox_sender :: bool
  conn_outbox :: "(Message \<times> nat \<times> bool) list"
  conn_cells :: nat

text \<open>\<open>Connection.__init__\<close>, with the class attributes' defaults.\<close>

definition Connection_init :: "int \<Rightarrow> Connection" where
  "Connection_init n =
     \<lparr>conn_num = n, conn_address = AddrNone, conn_socket = None, conn_error = None,
      conn_scope = False, conn_requests = Map.empty,
      conn_counter = \<lparr>wc_start = 1, wc_limit = INT32_MAX, wc_value = 1\<rparr>,
      conn_outbox_sender = False, conn_outbox = [], conn_cells = 0\<rparr>"

text \<open>
  \<open>Connection.attach\<close>, up to the point where the cancel scope of the run loop is
  entered: it refuses a connection that is running already, stores the address and
  the socket, opens the outbox channel and sets \<open>_scope\<close>.
\<close>

definition attach :: "Connection \<Rightarrow> nat \<Rightarrow> address \<Rightarrow> (exc + unit) \<times> Connection" where
  "attach self socket addr =
     (if conn_scope self then (Inl RuntimeError, self)
      else (Inr (), self\<lparr>conn_address := addr, conn_socket := Some socket,
                          conn_outbox_sender := True, conn_scope := True\<rparr>))"

text \<open>\<open>Connection._check_not_closed\<close>.\<close>

definition check_not_closed :: "Connection \<Rightarrow> exc + unit" where
  "check_not_closed self =
     (case conn_error self of
        Some e \<Rightarrow> Inl e
      | None \<Rightarrow> if \<not> conn_outbox_sender self then Inl ClosedResourceError else Inr ())"

text \<open>\<open>Connection._set_error\<close>: the error it returns, and the connection afterwards.\<close>

definition set_error :: "Connection \<Rightarrow> exc \<Rightarrow> exc \<times> Connection" where
  "set_error self error =
     (case conn_error self of
        None \<Rightarrow> (error, self\<lparr>conn_error := Some error\<rparr>)
      | Some e \<Rightarrow> (e, self))"

text \<open>
  The loop \<open>while True: num = next(counter); if num not in requests: break\<close> of
  \<open>Connection.send\<close> (and of \<open>Server._accept\<close>, over the connections): the number found
  and the counter afterwards. The loop does not end when every number the counter
  produces is in use.
\<close>

partial_function (option) next_unused ::
  "WrappedCounter \<Rightarrow> (int \<rightharpoonup> 'a) \<Rightarrow> (int \<times> WrappedCounter) option" where
  "next_unused counter used =
     (let r = wc_next counter in
      if used (fst r) = None then Some r else next_unused (snd r) used)"

text \<open>The expression \<open>fds or []\<close>, where \<open>fds\<close> defaults to \<open>None\<close>.\<close>

definition or_empty :: "'a list option \<Rightarrow> 'a list" where
  "or_empty fds = (case fds of None \<Rightarrow> [] | Some xs \<Rightarrow> xs)"

text \<open>
  \<open>Connection.send\<close>, up to the point where the request has been handed to the outbox:
  the request number (the local \<open>num\<close>) or the exception, and the connection afterwards.
  \<open>None\<close> when the numbering loop does not end.
\<close>

definition send :: "Connection \<Rightarrow> bytes \<Rightarrow> Fd list option \<Rightarrow> ((exc + int) \<times> Connection) option" where
  "send self data fds =
     (case check_not_closed self of
        Inl e \<Rightarrow> Some (Inl e, self)
      | Inr _ \<Rightarrow>
          (let result = conn_cells self;
               self = self\<lparr>conn_cells := Suc result\<rparr>
           in case next_unused (conn_counter self) (conn_requests self) of
                None \<Rightarrow> None
              | Some (num, counter) \<Rightarrow>
                  Some (Inr num,
                    self\<lparr>conn_counter := counter,
                         conn_requests := (conn_requests self)(num \<mapsto> result),
                         conn_outbox := conn_outbox self @
                           [(\<lparr>msg_num = num, msg_flags = REQUEST, msg_data = data,
                              msg_fds = or_empty fds\<rparr>, result, True)]\<rparr>)))"

text \<open>\<open>Connection.notify\<close>, up to the point where the notification has been handed to the outbox.\<close>

definition notify :: "Connection \<Rightarrow> bytes \<Rightarrow> Fd list option \<Rightarrow> (exc + unit) \<times> Connection" where
  "notify self data fds =
     (case check_not_closed self of
        Inl e \<Rightarrow> (Inl e, self)
      | Inr _ \<Rightarrow>
          (let result = conn_cells self;
               self = self\<lparr>conn_cells := Suc result\<rparr>
           in (Inr (),
               self\<lparr>conn_outbox := conn_outbox self @
                           [(\<lparr>msg_num = 0, msg_flags = NOTIFICATION, msg_data = data,
                              msg_fds = or_empty fds\<rparr>, result, False)]\<rparr>)))"

text \<open>
  What can happen to a connection in any order: an error is reported to \<open>_set_error\<close>
  (by the reader, the writer or the shutdown), a task calls \<open>send\<close>, a task calls
  \<open>notify\<close>.
\<close>

datatype call = SetError exc | Send bytes "Fd list option" | Notify bytes "Fd list option"

fun do_call :: "Connection \<Rightarrow> call \<Rightarrow> Connection option" where
  "do_call self (SetError e) = Some (snd (set_error self e))"
| "do_call self (Send data fds) = map_option snd (send self data fds)"
| "do_call self (Notify data fds) = Some (snd (notify self data fds))"

fun do_calls :: "Connection \<Rightarrow> call list \<Rightarrow> Connection option" where
  "do_calls self [] = Some self"
| "do_calls self (c # cs) = (case do_call self c of None \<Rightarrow> None | Some self' \<Rightarrow> do_calls self' cs)"

section \<open>Connection: the sticky error\<close>

lemma errored_send: "conn_error c = Some e \<Longrightarrow> send c d f = Some (Inl e, c)"
  by (simp add: send_def check_not_closed_def)

lemma errored_notify: "conn_error c = Some e \<Longrightarrow> notify c d f = (Inl e, c)"
  by (simp add: notify_def check_not_closed_def)

lemma errored_set_error: "conn_error c = Some e \<Longrightarrow> set_error c e' = (e, c)"
  by (simp add: set_error_def)

lemma errored_do_call: "conn_error c = Some e \<Longrightarrow> do_call c x = Some c"
  by (cases x) (simp_all add: errored_send errored_notify errored_set_error)

lemma errored_do_calls: "conn_error c = Some e \<Longrightarrow> do_calls c xs = Some c"
  by (induction xs) (simp_all add: errored_do_call)

text \<open>
  C3. Once \<open>_set_error\<close> has recorded the first error \<open>e\<close> on a connection, whatever is
  reported or called afterwards (further errors, \<open>send\<close>, \<open>notify\<close>, in any order) leaves
  the connection as it is: the recorded error stays \<open>e\<close>, and every \<open>send\<close> and \<open>notify\<close>
  raises \<open>e\<close> itself, with nothing added to the outbox.
\<close>

theorem sticky_error:
  assumes "conn_error c = None" and "set_error c e = (e', c1)"
  shows "e' = e \<and> conn_error c1 = Some e \<and> conn_outbox c1 = conn_outbox c \<and>
         do_calls c1 cs = Some c1 \<and>
         send c1 d f = Some (Inl e, c1) \<and> notify c1 d f = (Inl e, c1)"
proof -
  from assms have c1: "c1 = c\<lparr>conn_error := Some e\<rparr>" and e: "e' = e"
    by (auto simp: set_error_def)
  then have err: "conn_error c1 = Some e" by simp
  show ?thesis
    using e err c1 errored_do_calls [OF err] errored_send [OF err] errored_notify [OF err]
    by simp
qed

text \<open>A connection that has been attached and has no error yet.\<close>

definition failed_conn :: Connection where
  "failed_conn = (Connection_init 0)\<lparr>conn_scope := True, conn_outbox_sender := True\<rparr>"

theorem sticky_error_witness:
  "set_error failed_conn (TransportError ''short read'')
     = (TransportError ''short read'', failed_conn\<lparr>conn_error := Some (TransportError ''short read'')\<rparr>) \<and>
   do_calls (failed_conn\<lparr>conn_error := Some (TransportError ''short read'')\<rparr>)
      [SetError ClosedResourceError, Send [1] None, SetError OSError, Notify [2] None]
     = Some (failed_conn\<lparr>conn_error := Some (TransportError ''short read'')\<rparr>) \<and>
   send (failed_conn\<lparr>conn_error := Some (TransportError ''short read'')\<rparr>) [1] None
     = Some (Inl (TransportError ''short read''), failed_conn\<lparr>conn_error := Some (TransportError ''short read'')\<rparr>) \<and>
   notify (failed_conn\<lparr>conn_error := Some (TransportError ''short read'')\<rparr>) [1] None
     = (Inl (TransportError ''short read''), failed_conn\<lparr>conn_error := Some (TransportError ''short read'')\<rparr>)"
proof -
  have a: "conn_error failed_conn = None" by (simp add: failed_conn_def Connection_init_def)
  have b: "set_error failed_conn (TransportError ''short read'')
     = (TransportError ''short read'', failed_conn\<lparr>conn_error := Some (TransportError ''short read'')\<rparr>)"
    using a by (simp add: set_error_def)
  from sticky_error [OF a b, where cs = "[SetError ClosedResourceError, Send [1] None, SetError OSError, Notify [2] None]"
      and d = "[1]" and f = None] b
  show ?thesis by simp
qed

section \<open>Connection: request numbers\<close>

lemma wc_run_Suc_last:
  "wc_run (Suc k) c = (vs, c') \<Longrightarrow> vs \<noteq> []"
  by (auto split: prod.splits)

lemma next_unused_run:
  "wc_run (Suc k) c = (vs, c') \<Longrightarrow> used (last vs) = None \<Longrightarrow>
   \<exists>skipped num c''. length skipped \<le> k \<and> wc_run (Suc (length skipped)) c = (skipped @ [num], c'') \<and>
      next_unused c used = Some (num, c'') \<and>
      (\<forall>n \<in> set skipped. used n \<noteq> None) \<and> used num = None"
proof (induction k arbitrary: c vs c')
  case 0
  obtain v c1 where nx: "wc_next c = (v, c1)" by (cases "wc_next c")
  with 0 have "vs = [v]" by auto
  with 0 have "used v = None" by simp
  with nx have "next_unused c used = Some (v, c1)"
    by (subst next_unused.simps) simp
  with nx \<open>used v = None\<close> show ?case
    by (intro exI [of _ "[]"] exI [of _ v] exI [of _ c1]) simp
next
  case (Suc k)
  obtain v c1 where nx: "wc_next c = (v, c1)" by (cases "wc_next c")
  show ?case
  proof (cases "used v = None")
    case True
    with nx have "next_unused c used = Some (v, c1)"
      by (subst next_unused.simps) simp
    with nx True show ?thesis
      by (intro exI [of _ "[]"] exI [of _ v] exI [of _ c1]) simp
  next
    case False
    obtain ws where ws: "wc_run (Suc k) c1 = (ws, c')" and vs: "vs = v # ws"
      using Suc.prems(1) nx by (auto split: prod.splits)
    have "ws \<noteq> []" using ws by (rule wc_run_Suc_last)
    with vs Suc.prems(2) have "used (last ws) = None" by simp
    from Suc.IH [OF ws this] obtain skipped num c'' where
      IH: "length skipped \<le> k" "wc_run (Suc (length skipped)) c1 = (skipped @ [num], c'')"
        "next_unused c1 used = Some (num, c'')" "\<forall>n \<in> set skipped. used n \<noteq> None" "used num = None"
      by blast
    have "next_unused c used = Some (num, c'')"
      using nx False IH(3) by (subst next_unused.simps) (auto simp: Let_def)
    moreover have "wc_run (Suc (length (v # skipped))) c = ((v # skipped) @ [num], c'')"
      using nx IH(2) by simp
    ultimately show ?thesis
      using IH(1,4,5) False
      by (intro exI [of _ "v # skipped"] exI [of _ num] exI [of _ c'']) simp
  qed
qed

lemma wc_run_upto:
  "wc_value c \<le> n \<Longrightarrow> n < wc_limit c \<Longrightarrow> k = nat (n - wc_value c) \<Longrightarrow>
   wc_run (Suc k) c = ([wc_value c..n], c\<lparr>wc_value := n + 1\<rparr>)"
proof (induction k arbitrary: c)
  case 0
  then have "wc_value c = n" by simp
  with 0 show ?case by (simp add: wc_next_def)
next
  case (Suc k)
  let ?c' = "c\<lparr>wc_value := wc_value c + 1\<rparr>"
  from Suc.prems have lt: "wc_value c < n" by simp
  with Suc.prems have nx: "wc_next c = (wc_value c, ?c')" by (simp add: wc_next_def)
  have "wc_run (Suc k) ?c' = ([wc_value ?c'..n], ?c'\<lparr>wc_value := n + 1\<rparr>)"
    using Suc.prems by (intro Suc.IH) auto
  moreover have "[wc_value c..n] = wc_value c # [wc_value c + 1..n]"
    using lt by (simp add: upto_rec1)
  ultimately show ?case using nx by simp
qed

lemma wc_run_add:
  "wc_run (a + b) c =
     (case wc_run a c of (vs, c1) \<Rightarrow> (case wc_run b c1 of (ws, c2) \<Rightarrow> (vs @ ws, c2)))"
  by (induction a arbitrary: c) (auto split: prod.splits)

lemma wc_reaches:
  assumes "wc_start c \<le> wc_value c" "wc_value c \<le> wc_limit c"
    and "wc_start c \<le> n" "n \<le> wc_limit c"
  shows "\<exists>k vs c'. wc_run (Suc k) c = (vs, c') \<and> last vs = n"
proof -
  have direct: "\<exists>k vs c'. wc_run (Suc k) d = (vs, c') \<and> last vs = n"
    if "wc_start d \<le> wc_value d" "wc_value d \<le> n" "n \<le> wc_limit d" for d
  proof (cases "n < wc_limit d")
    case True
    have "last [wc_value d..n] = n" using that(2) by (simp add: upto_rec2)
    with wc_run_upto [OF that(2) True refl] show ?thesis by blast
  next
    case False
    with that have n: "n = wc_limit d" by simp
    have "last [wc_value d..wc_limit d] = n" using that(2) n by (simp add: upto_rec2)
    moreover have "wc_value d \<le> wc_limit d" using that n by simp
    ultimately show ?thesis using wc_run_tail [OF that(1) _ refl] by blast
  qed
  show ?thesis
  proof (cases "wc_value c \<le> n")
    case True
    then show ?thesis using direct [of c] assms by simp
  next
    case False
    let ?a = "Suc (nat (wc_limit c - wc_value c))"
    let ?d = "c\<lparr>wc_value := wc_start c\<rparr>"
    have a: "wc_run ?a c = ([wc_value c..wc_limit c], ?d)"
      using wc_run_tail [OF assms(1,2) refl] .
    from direct [of ?d] assms obtain k vs c' where b: "wc_run (Suc k) ?d = (vs, c')" "last vs = n"
      by auto
    from b(1) have "vs \<noteq> []" by (rule wc_run_Suc_last)
    have "wc_run (?a + Suc k) c = ([wc_value c..wc_limit c] @ vs, c')"
      using a b by (simp only: wc_run_add split: prod.splits) simp
    then have "wc_run (Suc (nat (wc_limit c - wc_value c) + Suc k)) c = ([wc_value c..wc_limit c] @ vs, c')"
      by simp
    moreover have "last ([wc_value c..wc_limit c] @ vs) = n" using b \<open>vs \<noteq> []\<close> by simp
    ultimately show ?thesis by blast
  qed
qed

lemma wc_next_inv:
  "wc_start c \<le> wc_value c \<Longrightarrow> wc_value c \<le> wc_limit c \<Longrightarrow> wc_next c = (v, c') \<Longrightarrow>
   wc_start c \<le> v \<and> v \<le> wc_limit c \<and> wc_start c' = wc_start c \<and> wc_limit c' = wc_limit c \<and>
   wc_start c' \<le> wc_value c' \<and> wc_value c' \<le> wc_limit c'"
  by (auto simp: wc_next_def split: if_splits)

lemma wc_run_inv:
  "wc_start c \<le> wc_value c \<Longrightarrow> wc_value c \<le> wc_limit c \<Longrightarrow> wc_run k c = (vs, c') \<Longrightarrow>
   (\<forall>v \<in> set vs. wc_start c \<le> v \<and> v \<le> wc_limit c) \<and> wc_start c' = wc_start c \<and> wc_limit c' = wc_limit c \<and>
   wc_start c' \<le> wc_value c' \<and> wc_value c' \<le> wc_limit c'"
proof (induction k arbitrary: c vs)
  case 0
  then show ?case by simp
next
  case (Suc k)
  obtain v c1 where nx: "wc_next c = (v, c1)" by (cases "wc_next c")
  obtain ws where ws: "wc_run k c1 = (ws, c')" and vs: "vs = v # ws"
    using Suc.prems(3) nx by (auto split: prod.splits)
  note i = wc_next_inv [OF Suc.prems(1,2) nx]
  from i have "wc_start c1 \<le> wc_value c1" "wc_value c1 \<le> wc_limit c1" by simp_all
  from Suc.IH [OF this ws] i vs show ?case by auto
qed


text \<open>
  C9. On a connection that is open, whose counter is the one \<open>__init__\<close> builds (over
  \<open>1 .. INT32_MAX\<close>) and which has a request number to spare, \<open>send\<close> returns: the number
  of the request is the first number the counter produces that is not a key of the
  requests map, every number it passed over is a key of that map, the number lies in
  \<open>[1, 2^31 - 1]\<close>, and the request is registered under it and handed to the outbox with
  it. \<open>notify\<close> hands its message to the outbox with the number \<open>0\<close> and touches neither
  the counter nor the requests map.
\<close>

theorem request_numbering:
  assumes ok: "check_not_closed c = Inr ()"
    and cnt: "wc_start (conn_counter c) = 1" "wc_limit (conn_counter c) = INT32_MAX"
             "1 \<le> wc_value (conn_counter c)" "wc_value (conn_counter c) \<le> INT32_MAX"
    and free: "1 \<le> n0" "n0 \<le> INT32_MAX" "conn_requests c n0 = None"
  shows "(\<exists>num c' skipped.
      send c data fds = Some (Inr num, c') \<and> 1 \<le> num \<and> num \<le> 2 ^ 31 - 1 \<and>
      wc_run (Suc (length skipped)) (conn_counter c) = (skipped @ [num], conn_counter c') \<and>
      (\<forall>n \<in> set skipped. conn_requests c n \<noteq> None) \<and> conn_requests c num = None \<and>
      conn_requests c' = (conn_requests c)(num \<mapsto> conn_cells c) \<and>
      conn_outbox c' = conn_outbox c @
        [(\<lparr>msg_num = num, msg_flags = REQUEST, msg_data = data, msg_fds = or_empty fds\<rparr>,
          conn_cells c, True)] \<and>
      wc_start (conn_counter c') = 1 \<and> wc_limit (conn_counter c') = INT32_MAX \<and>
      1 \<le> wc_value (conn_counter c') \<and> wc_value (conn_counter c') \<le> INT32_MAX) \<and>
    (\<exists>c'. notify c data fds = (Inr (), c') \<and>
      conn_outbox c' = conn_outbox c @
        [(\<lparr>msg_num = 0, msg_flags = NOTIFICATION, msg_data = data, msg_fds = or_empty fds\<rparr>,
          conn_cells c, False)] \<and>
      conn_requests c' = conn_requests c \<and> conn_counter c' = conn_counter c)"
proof
  let ?cnt = "conn_counter c"
  have inv: "wc_start ?cnt \<le> wc_value ?cnt" "wc_value ?cnt \<le> wc_limit ?cnt"
    using cnt by simp_all
  from wc_reaches [OF inv, of n0] cnt free obtain k vs c1
    where run: "wc_run (Suc k) ?cnt = (vs, c1)" and lst: "last vs = n0" by auto
  from next_unused_run [OF run, of "conn_requests c"] lst free(3)
  obtain skipped num c2 where
    r: "wc_run (Suc (length skipped)) ?cnt = (skipped @ [num], c2)"
      "next_unused ?cnt (conn_requests c) = Some (num, c2)"
      "\<forall>n \<in> set skipped. conn_requests c n \<noteq> None" "conn_requests c num = None"
    by auto
  from wc_run_inv [OF inv r(1)] cnt
  have i: "1 \<le> num" "num \<le> INT32_MAX" "wc_start c2 = 1" "wc_limit c2 = INT32_MAX"
    "1 \<le> wc_value c2" "wc_value c2 \<le> INT32_MAX"
    by auto
  let ?c' = "c\<lparr>conn_cells := Suc (conn_cells c), conn_counter := c2,
       conn_requests := (conn_requests c)(num \<mapsto> conn_cells c),
       conn_outbox := conn_outbox c @
         [(\<lparr>msg_num = num, msg_flags = REQUEST, msg_data = data, msg_fds = or_empty fds\<rparr>,
           conn_cells c, True)]\<rparr>"
  have s: "send c data fds = Some (Inr num, ?c')"
    using ok r(2) by (simp add: send_def Let_def)
  have "num \<le> 2 ^ 31 - 1" using i(2) by (simp add: INT32_MAX_def)
  with s r i show "\<exists>num c' skipped.
      send c data fds = Some (Inr num, c') \<and> 1 \<le> num \<and> num \<le> 2 ^ 31 - 1 \<and>
      wc_run (Suc (length skipped)) (conn_counter c) = (skipped @ [num], conn_counter c') \<and>
      (\<forall>n \<in> set skipped. conn_requests c n \<noteq> None) \<and> conn_requests c num = None \<and>
      conn_requests c' = (conn_requests c)(num \<mapsto> conn_cells c) \<and>
      conn_outbox c' = conn_outbox c @
        [(\<lparr>msg_num = num, msg_flags = REQUEST, msg_data = data, msg_fds = or_empty fds\<rparr>,
          conn_cells c, True)] \<and>
      wc_start (conn_counter c') = 1 \<and> wc_limit (conn_counter c') = INT32_MAX \<and>
      1 \<le> wc_value (conn_counter c') \<and> wc_value (conn_counter c') \<le> INT32_MAX"
    by (intro exI [of _ num] exI [of _ ?c'] exI [of _ skipped]) simp
next
  show "\<exists>c'. notify c data fds = (Inr (), c') \<and>
      conn_outbox c' = conn_outbox c @
        [(\<lparr>msg_num = 0, msg_flags = NOTIFICATION, msg_data = data, msg_fds = or_empty fds\<rparr>,
          conn_cells c, False)] \<and>
      conn_requests c' = conn_requests c \<and> conn_counter c' = conn_counter c"
    using ok by (simp add: notify_def Let_def)
qed

text \<open>An attached connection whose request 1 is still outstanding.\<close>

definition busy_conn :: Connection where
  "busy_conn = (Connection_init 0)\<lparr>conn_scope := True, conn_outbox_sender := True,
     conn_requests := [1 \<mapsto> 0], conn_cells := 1,
     conn_counter := \<lparr>wc_start = 1, wc_limit = INT32_MAX, wc_value = 1\<rparr>\<rparr>"

lemma busy_send:
  "send busy_conn [7] None = Some (Inr 2, busy_conn\<lparr>conn_cells := 2,
     conn_counter := \<lparr>wc_start = 1, wc_limit = INT32_MAX, wc_value = 3\<rparr>,
     conn_requests := [1 \<mapsto> 0, 2 \<mapsto> 1],
     conn_outbox := [(\<lparr>msg_num = 2, msg_flags = REQUEST, msg_data = [7], msg_fds = []\<rparr>, 1, True)]\<rparr>)"
  apply (simp add: send_def check_not_closed_def busy_conn_def Connection_init_def Let_def or_empty_def)
  apply (subst next_unused.simps)
  apply (simp add: wc_next_def INT32_MAX_def Let_def)
  apply (subst next_unused.simps)
  apply (simp add: wc_next_def INT32_MAX_def Let_def or_empty_def)
  done

theorem request_numbering_witness:
  "send busy_conn [7] None = Some (Inr 2, busy_conn\<lparr>conn_cells := 2,
     conn_counter := \<lparr>wc_start = 1, wc_limit = INT32_MAX, wc_value = 3\<rparr>,
     conn_requests := [1 \<mapsto> 0, 2 \<mapsto> 1],
     conn_outbox := [(\<lparr>msg_num = 2, msg_flags = REQUEST, msg_data = [7], msg_fds = []\<rparr>, 1, True)]\<rparr>) \<and>
   (\<exists>c'. notify busy_conn [7] None = (Inr (), c') \<and>
      conn_outbox c' = conn_outbox busy_conn @
        [(\<lparr>msg_num = 0, msg_flags = NOTIFICATION, msg_data = [7], msg_fds = or_empty None\<rparr>,
          conn_cells busy_conn, False)] \<and>
      conn_requests c' = conn_requests busy_conn \<and> conn_counter c' = conn_counter busy_conn)"
proof -
  have "check_not_closed busy_conn = Inr ()"
    by (simp add: check_not_closed_def busy_conn_def Connection_init_def)
  moreover have "wc_start (conn_counter busy_conn) = 1" "wc_limit (conn_counter busy_conn) = INT32_MAX"
     "1 \<le> wc_value (conn_counter busy_conn)" "wc_value (conn_counter busy_conn) \<le> INT32_MAX"
    by (simp_all add: busy_conn_def Connection_init_def INT32_MAX_def)
  moreover have "(1::int) \<le> 5" "5 \<le> INT32_MAX" "conn_requests busy_conn 5 = None"
    by (simp_all add: busy_conn_def Connection_init_def INT32_MAX_def)
  ultimately have "(\<exists>num c' skipped.
      send busy_conn [7] None = Some (Inr num, c') \<and> 1 \<le> num \<and> num \<le> 2 ^ 31 - 1 \<and>
      wc_run (Suc (length skipped)) (conn_counter busy_conn) = (skipped @ [num], conn_counter c') \<and>
      (\<forall>n \<in> set skipped. conn_requests busy_conn n \<noteq> None) \<and> conn_requests busy_conn num = None \<and>
      conn_requests c' = (conn_requests busy_conn)(num \<mapsto> conn_cells busy_conn) \<and>
      conn_outbox c' = conn_outbox busy_conn @
        [(\<lparr>msg_num = num, msg_flags = REQUEST, msg_data = [7], msg_fds = or_empty None\<rparr>,
          conn_cells busy_conn, True)] \<and>
      wc_start (conn_counter c') = 1 \<and> wc_limit (conn_counter c') = INT32_MAX \<and>
      1 \<le> wc_value (conn_counter c') \<and> wc_value (conn_counter c') \<le> INT32_MAX) \<and>
    (\<exists>c'. notify busy_conn [7] None = (Inr (), c') \<and>
      conn_outbox c' = conn_outbox busy_conn @
        [(\<lparr>msg_num = 0, msg_flags = NOTIFICATION, msg_data = [7], msg_fds = or_empty None\<rparr>,
          conn_cells busy_conn, False)] \<and>
      conn_requests c' = conn_requests busy_conn \<and> conn_counter c' = conn_counter busy_conn)"
    by (rule request_numbering)
  with busy_send show ?thesis by blast
qed

section \<open>src/ipc/server.py: Server\<close>

text \<open>
  The state of a \<open>Server\<close>: the connections by number, and the counter of connection
  numbers. A dictionary holds its connections by reference, so the entry of a
  connection shows the connection as it is now.
\<close>

record Server =
  srv_connections :: "int \<rightharpoonup> Connection"
  srv_counter :: WrappedCounter

text \<open>\<open>Server.__init__\<close>.\<close>

definition Server_init :: Server where
  "Server_init =
     \<lparr>srv_connections = Map.empty,
      srv_counter = \<lparr>wc_start = 1, wc_limit = INT32_MAX, wc_value = 1\<rparr>\<rparr>"

text \<open>
  \<open>Server._accept(socket, address)\<close>, up to the point where \<open>conn.attach\<close> has stored its
  arguments: the number of the new connection, and the server afterwards.
\<close>

definition accept_conn :: "Server \<Rightarrow> nat \<Rightarrow> address \<Rightarrow> (int \<times> Server) option" where
  "accept_conn self socket addr =
     (case next_unused (srv_counter self) (srv_connections self) of
        None \<Rightarrow> None
      | Some (num, counter) \<Rightarrow>
          (let conn = Connection_init num;
               conn = snd (attach conn socket addr)
           in Some (num, self\<lparr>srv_counter := counter,
                                 srv_connections := (srv_connections self)(num \<mapsto> conn)\<rparr>)))"

text \<open>
  One round of the accept loop of \<open>Server.serve\<close>, for what \<open>server_socket.accept()\<close>
  returned: \<open>nursery.start_soon(self._accept, client_socket, bytes)\<close>. The third argument
  is the name \<open>bytes\<close>, the class; the local \<open>address\<close> that \<open>accept()\<close> returned is not
  used.
\<close>

definition serve_accepted :: "Server \<Rightarrow> nat \<times> bytes \<Rightarrow> (int \<times> Server) option" where
  "serve_accepted self accepted =
     (case accepted of (client_socket, address) \<Rightarrow> accept_conn self client_socket BytesClass)"

section \<open>Server: the address of an accepted connection\<close>

text \<open>
  C4 fails on the code. When a fresh server accepts a client whose address is the empty
  bytes object (an unnamed client), the connection is registered under the number 1
  and its \<open>address\<close> is the class \<open>bytes\<close>, not the bytes that \<open>accept()\<close> returned.
\<close>

theorem serve_accepted_address:
  "serve_accepted Server_init (5, []) =
     Some (1, \<lparr>srv_connections =
                 [1 \<mapsto> (Connection_init 1)\<lparr>conn_address := BytesClass, conn_socket := Some 5,
                                              conn_outbox_sender := True, conn_scope := True\<rparr>],
               srv_counter = \<lparr>wc_start = 1, wc_limit = INT32_MAX, wc_value = 2\<rparr>\<rparr>) \<and>
   BytesClass \<noteq> AddrBytes []"
  apply (simp add: serve_accepted_def accept_conn_def Server_init_def)
  apply (subst next_unused.simps)
  apply (simp add: wc_next_def INT32_MAX_def Let_def attach_def Connection_init_def)
  done

section \<open>Python built-ins the codec uses\<close>

text \<open>
  A slice \<open>xs[a:b]\<close> and \<open>xs[a:]\<close> of a sequence: a negative bound counts from the end, and
  every bound is clamped to the sequence, so a slice never raises.
\<close>

definition slice_index :: "nat \<Rightarrow> int \<Rightarrow> nat" where
  "slice_index n i = (if i < 0 then nat (max (int n + i) 0) else min (nat i) n)"

definition py_slice :: "'a list \<Rightarrow> int \<Rightarrow> int \<Rightarrow> 'a list" where
  "py_slice xs a b =
     take (slice_index (length xs) b - slice_index (length xs) a)
          (drop (slice_index (length xs) a) xs)"

definition py_slice_from :: "'a list \<Rightarrow> int \<Rightarrow> 'a list" where
  "py_slice_from xs a = drop (slice_index (length xs) a) xs"

text \<open>An item \<open>xs[i]\<close> of a list: a negative index counts from the end, \<open>IndexError\<close> out of range.\<close>

definition py_index :: "'a list \<Rightarrow> int \<Rightarrow> exc + 'a" where
  "py_index xs i =
     (let j = (if i < 0 then int (length xs) + i else i)
      in if 0 \<le> j \<and> j < int (length xs) then Inr (xs ! nat j) else Inl IndexError)"

text \<open>
  A \<open>str\<close> is the list of its code points. \<open>str.encode('utf-8')\<close> raises
  \<open>UnicodeEncodeError\<close> on a surrogate (a \<open>str\<close> holds no code point above \<open>0x10FFFF\<close>;
  the model refuses one the same way).
\<close>

type_synonym str = "nat list"

definition utf8_char :: "nat \<Rightarrow> nat list" where
  "utf8_char c =
     (if c < 0x80 then [c]
      else if c < 0x800 then [0xC0 + c div 64, 0x80 + c mod 64]
      else if c < 0x10000 then [0xE0 + c div 4096, 0x80 + c div 64 mod 64, 0x80 + c mod 64]
      else [0xF0 + c div 262144, 0x80 + c div 4096 mod 64, 0x80 + c div 64 mod 64,
            0x80 + c mod 64])"

definition scalar_value :: "nat \<Rightarrow> bool" where
  "scalar_value c = (c < 0x110000 \<and> \<not> (0xD800 \<le> c \<and> c < 0xE000))"

definition utf8_encode :: "str \<Rightarrow> exc + bytes" where
  "utf8_encode s =
     (if list_all scalar_value s then Inr (map of_nat (concat (map utf8_char s)))
      else Inl UnicodeEncodeError)"

text \<open>
  \<open>str(data, encoding='utf-8')\<close>: the strict decoder, which refuses a stray or missing
  continuation byte, an overlong form, a surrogate and a code point above \<open>0x10FFFF\<close>.
\<close>

definition continuation :: "nat \<Rightarrow> bool" where
  "continuation b = (0x80 \<le> b \<and> b < 0xC0)"

fun utf8_points :: "nat list \<Rightarrow> nat list option" where
  "utf8_points [] = Some []"
| "utf8_points (b0 # bs) =
     (if b0 < 0x80 then map_option ((#) b0) (utf8_points bs)
      else if 0xC2 \<le> b0 \<and> b0 < 0xE0 then
        (case bs of
           b1 # r \<Rightarrow>
             if continuation b1
             then map_option ((#) ((b0 - 0xC0) * 64 + (b1 - 0x80))) (utf8_points r)
             else None
         | _ \<Rightarrow> None)
      else if 0xE0 \<le> b0 \<and> b0 < 0xF0 then
        (case bs of
           b1 # b2 # r \<Rightarrow>
             (let c = (b0 - 0xE0) * 4096 + (b1 - 0x80) * 64 + (b2 - 0x80)
              in if continuation b1 \<and> continuation b2 \<and> 0x800 \<le> c \<and> scalar_value c
                 then map_option ((#) c) (utf8_points r)
                 else None)
         | _ \<Rightarrow> None)
      else if 0xF0 \<le> b0 \<and> b0 < 0xF5 then
        (case bs of
           b1 # b2 # b3 # r \<Rightarrow>
             (let c = (b0 - 0xF0) * 262144 + (b1 - 0x80) * 4096 + (b2 - 0x80) * 64 + (b3 - 0x80)
              in if continuation b1 \<and> continuation b2 \<and> continuation b3 \<and>
                    0x10000 \<le> c \<and> scalar_value c
                 then map_option ((#) c) (utf8_points r)
                 else None)
         | _ \<Rightarrow> None)
      else None)"

definition utf8_decode :: "bytes \<Rightarrow> exc + str" where
  "utf8_decode data =
     (case utf8_points (map unat data) of
        None \<Rightarrow> Inl UnicodeDecodeError
      | Some s \<Rightarrow> Inr s)"

section \<open>ipc/convert.py\<close>

text \<open>The bytes of a number, least significant first, and the number of such bytes.\<close>

fun le_encode :: "nat \<Rightarrow> nat \<Rightarrow> bytes" where
  "le_encode 0 n = []"
| "le_encode (Suc k) n = of_nat (n mod 256) # le_encode k (n div 256)"

fun le_decode :: "bytes \<Rightarrow> nat" where
  "le_decode [] = 0"
| "le_decode (b # bs) = unat b + 256 * le_decode bs"

text \<open>
  Modelled from the spec: \<open>int32_to_bytes\<close> of ipc/convert.py, which is not among the
  sources. The spec has every marker, length prefix and FD index as a 32-bit
  little-endian field (\<open>u32\<close>). A number that does not fit is refused with the error of
  the conversion (\<open>StructError\<close>).
\<close>

definition int32_to_bytes :: "int \<Rightarrow> exc + bytes" where
  "int32_to_bytes n =
     (if 0 \<le> n \<and> n < 2 ^ 32 then Inr (le_encode 4 (nat n)) else Inl StructError)"

text \<open>
  Modelled from the spec: \<open>int64_to_bytes\<close> of ipc/convert.py, which is not among the
  sources. The spec has the payload of \<open>INT64\<close> as signed 64-bit little-endian (two's
  complement).
\<close>

definition int64_to_bytes :: "int \<Rightarrow> exc + bytes" where
  "int64_to_bytes n =
     (if - (2 ^ 63) \<le> n \<and> n < 2 ^ 63 then Inr (le_encode 8 (nat (n mod 2 ^ 64)))
      else Inl StructError)"

text \<open>
  Modelled from the spec: \<open>int_from_bytes\<close> of ipc/convert.py, which is not among the
  sources. The decoder calls it on the four bytes of a marker, a length or an FD index
  (unsigned, by the spec) and on the eight bytes of an \<open>INT64\<close> payload (signed, by the
  spec). The spec does not say what it does with a slice of another width; the model
  refuses it with the error of the conversion.
\<close>

definition int_from_bytes :: "bytes \<Rightarrow> exc + int" where
  "int_from_bytes data =
     (if length data = 4 then Inr (int (le_decode data))
      else if length data = 8 then
        Inr (if le_decode data < 2 ^ 63 then int (le_decode data)
             else int (le_decode data) - 2 ^ 64)
      else Inl StructError)"

text \<open>
  Modelled from the spec: \<open>float_to_bytes\<close> and \<open>float_from_bytes\<close> of ipc/convert.py,
  which is not among the sources. A \<open>float\<close> is its IEEE-754 binary64 bit pattern; the
  spec has the payload of \<open>DOUBLE\<close> as these eight bytes, little-endian.
\<close>

definition float_to_bytes :: "64 word \<Rightarrow> bytes" where
  "float_to_bytes x = le_encode 8 (unat x)"

definition float_from_bytes :: "bytes \<Rightarrow> exc + 64 word" where
  "float_from_bytes data =
     (if length data = 8 then Inr (of_nat (le_decode data)) else Inl StructError)"

section \<open>src/ipc/codecs.py: the values\<close>

text \<open>
  A \<open>memoryview\<close>, as \<open>_serialize\<close> uses it. \<open>mv_len\<close> is what \<open>len(value)\<close> returns: the
  number of items along the first dimension of the view, which is the number of its
  bytes only when the view has one dimension and items of one byte
  (\<open>len(memoryview(array('i', [1])))\<close> is \<open>1\<close>, and the view has four bytes); it is \<open>None\<close>
  for a view of no dimension, where \<open>len\<close> raises \<open>TypeError\<close>. \<open>mv_bytes\<close> are the bytes of
  the view, in its order. \<open>mv_contiguous\<close> says whether the view is C-contiguous:
  \<open>buffer += value\<close> on a \<open>bytearray\<close> appends all the bytes of a contiguous view and
  raises \<open>TypeError\<close> for any other view (a slice with a step, for example). A released
  view is no value of the model.
\<close>

record memoryview =
  mv_len :: "nat option"
  mv_bytes :: bytes
  mv_contiguous :: bool

text \<open>
  The values \<open>_serialize\<close> tells apart (\<open>NativeType\<close>): \<open>None\<close>, a \<open>bool\<close>, an \<open>int\<close>, a
  \<open>float\<close> (its bit pattern), a \<open>str\<close>, \<open>bytes\<close>, a \<open>bytearray\<close>, a \<open>memoryview\<close>, a
  \<open>list\<close>, a \<open>tuple\<close>, a \<open>dict\<close> (its items in insertion order) and an \<open>Fd\<close>.
\<close>

datatype native =
    VNone
  | VBool bool
  | VInt int
  | VFloat "64 word"
  | VStr str
  | VBytes bytes
  | VByteArray bytes
  | VMemoryview memoryview
  | VList "native list"
  | VTuple "native list"
  | VDict "(native \<times> native) list"
  | VFd Fd

datatype Markers =
    FALSE | TRUE | NONE | INT64 | DOUBLE | STRING | BYTES
  | ARRAY_START | ARRAY_END | DICT_START | DICT_END | FD

fun marker_value :: "Markers \<Rightarrow> int" where
  "marker_value FALSE = 0"
| "marker_value TRUE = 1"
| "marker_value NONE = 2"
| "marker_value INT64 = 3"
| "marker_value DOUBLE = 4"
| "marker_value STRING = 5"
| "marker_value BYTES = 6"
| "marker_value ARRAY_START = 7"
| "marker_value ARRAY_END = 8"
| "marker_value DICT_START = 9"
| "marker_value DICT_END = 10"
| "marker_value FD = 11"

text \<open>What \<open>_deserialize\<close> returns beside the rest of the data: a closing marker or a value.\<close>

datatype item = Marker Markers | Value native

subsection \<open>Keys of a Python dict\<close>

text \<open>
  The number a \<open>bool\<close>, an \<open>int\<close> or a \<open>float\<close> stands for: \<open>Finite m e\<close> is \<open>m * 2^e\<close>. Keys
  that are numbers are the same key when they are equal as numbers (\<open>True == 1 == 1.0\<close>);
  a NaN equals nothing.
\<close>

datatype pynum = Finite int int | PosInf | NegInf | NaN

definition float_num :: "64 word \<Rightarrow> pynum" where
  "float_num w =
     (let ex = unat (drop_bit 52 w AND 0x7FF);
          frac = int (unat (w AND 0xFFFFFFFFFFFFF));
          sgn = (if bit w 63 then - 1 else 1)
      in if ex = 0x7FF then (if frac \<noteq> 0 then NaN else if bit w 63 then NegInf else PosInf)
         else if ex = 0 then Finite (sgn * frac) (- 1074)
         else Finite (sgn * (2 ^ 52 + frac)) (int ex - 1075))"

fun pynum_eq :: "pynum \<Rightarrow> pynum \<Rightarrow> bool" where
  "pynum_eq (Finite m1 e1) (Finite m2 e2) =
     (m1 * 2 ^ nat (e1 - min e1 e2) = m2 * 2 ^ nat (e2 - min e1 e2))"
| "pynum_eq PosInf PosInf = True"
| "pynum_eq NegInf NegInf = True"
| "pynum_eq _ _ = False"

fun num_of :: "native \<Rightarrow> pynum option" where
  "num_of (VBool b) = Some (Finite (if b then 1 else 0) 0)"
| "num_of (VInt i) = Some (Finite i 0)"
| "num_of (VFloat w) = Some (float_num w)"
| "num_of _ = None"

text \<open>
  Whether \<open>hash(key)\<close> returns: a \<open>list\<close>, a \<open>dict\<close> and a \<open>bytearray\<close> are unhashable, and
  so is an \<open>Fd\<close>, whose class defines \<open>__eq__\<close> and no \<open>__hash__\<close>; a \<open>tuple\<close> hashes when
  its items do. The hash and the comparison of a \<open>memoryview\<close> depend on its format and
  on whether it is read-only, which the model does not hold: a \<open>memoryview\<close> is no key
  of the model (\<open>hashable\<close> and \<open>key_eq\<close> are \<open>False\<close> for it). The decoder builds no
  \<open>memoryview\<close>, so no \<open>memoryview\<close> reaches \<open>result[key] = value\<close>.
\<close>

fun hashable :: "native \<Rightarrow> bool" where
  "hashable (VList xs) = False"
| "hashable (VMemoryview m) = False"
| "hashable (VDict kvs) = False"
| "hashable (VByteArray b) = False"
| "hashable (VFd fd) = False"
| "hashable (VTuple xs) = list_all hashable xs"
| "hashable _ = True"

text \<open>Whether two hashable keys are the same key of a dict (\<open>==\<close>).\<close>

fun key_eq :: "native \<Rightarrow> native \<Rightarrow> bool" where
  "key_eq a b =
     (case a of
        VNone \<Rightarrow> (case b of VNone \<Rightarrow> True | _ \<Rightarrow> False)
      | VStr s \<Rightarrow> (case b of VStr t \<Rightarrow> s = t | _ \<Rightarrow> False)
      | VBytes x \<Rightarrow> (case b of VBytes y \<Rightarrow> x = y | _ \<Rightarrow> False)
      | VTuple xs \<Rightarrow> (case b of VTuple ys \<Rightarrow> list_all2 key_eq xs ys | _ \<Rightarrow> False)
      | _ \<Rightarrow>
          (case (num_of a, num_of b) of
             (Some x, Some y) \<Rightarrow> pynum_eq x y
           | _ \<Rightarrow> False))"

text \<open>
  \<open>result[key] = value\<close> on a dict: \<open>TypeError\<close> for an unhashable key; the value of a key
  that is there is replaced at its place; a new key goes last.
\<close>

fun dict_store :: "(native \<times> native) list \<Rightarrow> native \<Rightarrow> native \<Rightarrow> (native \<times> native) list" where
  "dict_store [] k v = [(k, v)]"
| "dict_store ((k', v') # d) k v =
     (if key_eq k' k then (k', v) # d else (k', v') # dict_store d k v)"

definition dict_setitem ::
  "(native \<times> native) list \<Rightarrow> native \<Rightarrow> native \<Rightarrow> exc + (native \<times> native) list" where
  "dict_setitem d k v = (if hashable k then Inr (dict_store d k v) else Inl TypeError)"

section \<open>src/ipc/codecs.py: serialize\<close>

text \<open>Going on with the result of a step that may raise.\<close>

definition on_ok :: "exc + 'a \<Rightarrow> ('a \<Rightarrow> exc + 'b) \<Rightarrow> exc + 'b" where
  "on_ok m f = (case m of Inl e \<Rightarrow> Inl e | Inr x \<Rightarrow> f x)"

lemma on_ok_cong [fundef_cong]:
  "m = m' \<Longrightarrow> (\<And>x. m' = Inr x \<Longrightarrow> f x = f' x) \<Longrightarrow> on_ok m f = on_ok m' f'"
  by (auto simp: on_ok_def split: sum.splits)

text \<open>\<open>buffer += int32_to_bytes(n)\<close>.\<close>

definition add_int32 :: "bytes \<Rightarrow> int \<Rightarrow> exc + bytes" where
  "add_int32 buffer n = on_ok (int32_to_bytes n) (\<lambda>b. Inr (buffer @ b))"

text \<open>\<open>len(value)\<close> and \<open>buffer += value\<close> for a \<open>memoryview\<close>.\<close>

definition len_memoryview :: "memoryview \<Rightarrow> exc + nat" where
  "len_memoryview v = (case mv_len v of None \<Rightarrow> Inl TypeError | Some n \<Rightarrow> Inr n)"

definition add_memoryview :: "bytes \<Rightarrow> memoryview \<Rightarrow> exc + bytes" where
  "add_memoryview buffer v = (if mv_contiguous v then Inr (buffer @ mv_bytes v) else Inl TypeError)"

text \<open>
  \<open>_serialize(buffer, fds, value)\<close>: the buffer and the FD list afterwards, or the
  exception. The two loops (over the items of a list or tuple, over the items of a
  dict) are \<open>serialize_items\<close> and \<open>serialize_entries\<close>.
\<close>

function (sequential) serialize' :: "bytes \<Rightarrow> Fd list \<Rightarrow> native \<Rightarrow> exc + bytes \<times> Fd list"
  and serialize_items :: "bytes \<Rightarrow> Fd list \<Rightarrow> native list \<Rightarrow> exc + bytes \<times> Fd list"
  and serialize_entries :: "bytes \<Rightarrow> Fd list \<Rightarrow> (native \<times> native) list \<Rightarrow> exc + bytes \<times> Fd list"
where
  "serialize' buffer fds VNone =
     on_ok (add_int32 buffer (marker_value NONE)) (\<lambda>buffer. Inr (buffer, fds))"
| "serialize' buffer fds (VBool b) =
     (if b then on_ok (add_int32 buffer (marker_value TRUE)) (\<lambda>buffer. Inr (buffer, fds))
      else on_ok (add_int32 buffer (marker_value FALSE)) (\<lambda>buffer. Inr (buffer, fds)))"
| "serialize' buffer fds (VInt i) =
     on_ok (add_int32 buffer (marker_value INT64)) (\<lambda>buffer.
     on_ok (int64_to_bytes i) (\<lambda>b. Inr (buffer @ b, fds)))"
| "serialize' buffer fds (VFloat x) =
     on_ok (add_int32 buffer (marker_value DOUBLE)) (\<lambda>buffer.
     Inr (buffer @ float_to_bytes x, fds))"
| "serialize' buffer fds (VStr s) =
     on_ok (utf8_encode s) (\<lambda>v.
     on_ok (add_int32 buffer (marker_value STRING)) (\<lambda>buffer.
     on_ok (add_int32 buffer (int (length v))) (\<lambda>buffer.
     Inr (buffer @ v, fds))))"
| "serialize' buffer fds (VBytes v) =
     on_ok (add_int32 buffer (marker_value BYTES)) (\<lambda>buffer.
     on_ok (add_int32 buffer (int (length v))) (\<lambda>buffer.
     Inr (buffer @ v, fds)))"
| "serialize' buffer fds (VMemoryview v) =
     on_ok (add_int32 buffer (marker_value BYTES)) (\<lambda>buffer.
     on_ok (len_memoryview v) (\<lambda>n.
     on_ok (add_int32 buffer (int n)) (\<lambda>buffer.
     on_ok (add_memoryview buffer v) (\<lambda>buffer.
     Inr (buffer, fds)))))"
| "serialize' buffer fds (VList xs) =
     on_ok (add_int32 buffer (marker_value ARRAY_START)) (\<lambda>buffer.
     on_ok (serialize_items buffer fds xs) (\<lambda>(buffer, fds).
     on_ok (add_int32 buffer (marker_value ARRAY_END)) (\<lambda>buffer. Inr (buffer, fds))))"
| "serialize' buffer fds (VTuple xs) =
     on_ok (add_int32 buffer (marker_value ARRAY_START)) (\<lambda>buffer.
     on_ok (serialize_items buffer fds xs) (\<lambda>(buffer, fds).
     on_ok (add_int32 buffer (marker_value ARRAY_END)) (\<lambda>buffer. Inr (buffer, fds))))"
| "serialize' buffer fds (VDict kvs) =
     on_ok (add_int32 buffer (marker_value DICT_START)) (\<lambda>buffer.
     on_ok (serialize_entries buffer fds kvs) (\<lambda>(buffer, fds).
     on_ok (add_int32 buffer (marker_value DICT_END)) (\<lambda>buffer. Inr (buffer, fds))))"
| "serialize' buffer fds (VFd fd) =
     on_ok (add_int32 buffer (marker_value FD)) (\<lambda>buffer.
     on_ok (add_int32 buffer (int (length fds))) (\<lambda>buffer.
     Inr (buffer, fds @ [fd])))"
| "serialize' buffer fds (VByteArray v) = Inl EncoderError"
| "serialize_items buffer fds [] = Inr (buffer, fds)"
| "serialize_items buffer fds (x # xs) =
     on_ok (serialize' buffer fds x) (\<lambda>(buffer, fds). serialize_items buffer fds xs)"
| "serialize_entries buffer fds [] = Inr (buffer, fds)"
| "serialize_entries buffer fds ((k, v) # kvs) =
     on_ok (serialize' buffer fds k) (\<lambda>(buffer, fds).
     on_ok (serialize' buffer fds v) (\<lambda>(buffer, fds).
     serialize_entries buffer fds kvs))"
  by pat_completeness auto
termination
  by (relation "measure (\<lambda>x. case x of
         Inl (b, f, v) \<Rightarrow> size v
       | Inr (Inl (b, f, xs)) \<Rightarrow> size_list size xs
       | Inr (Inr (b, f, kvs)) \<Rightarrow> size_list (size_prod size size) kvs)") auto

text \<open>\<open>serialize(value)\<close>.\<close>

definition serialize :: "native \<Rightarrow> exc + bytes \<times> Fd list" where
  "serialize v = serialize' [] [] v"

section \<open>src/ipc/codecs.py: deserialize\<close>

text \<open>
  The decoder runs on fuel: \<open>None\<close> says that the fuel ran out (each call of
  \<open>_deserialize\<close> and each round of its loops takes one unit); \<open>Some (Inl e)\<close> that the
  exception \<open>e\<close> was raised; \<open>Some (Inr r)\<close> that \<open>r\<close> was returned. \<open>on_value\<close> goes on with
  the result of a step.
\<close>

definition on_value :: "(exc + 'a) option \<Rightarrow> ('a \<Rightarrow> (exc + 'b) option) \<Rightarrow> (exc + 'b) option" where
  "on_value m f = (case m of None \<Rightarrow> None | Some (Inl e) \<Rightarrow> Some (Inl e) | Some (Inr x) \<Rightarrow> f x)"

lemma on_value_cong [fundef_cong]:
  "m = m' \<Longrightarrow> (\<And>x. m' = Some (Inr x) \<Longrightarrow> f x = f' x) \<Longrightarrow> on_value m f = on_value m' f'"
  by (auto simp: on_value_def split: option.splits sum.splits)

text \<open>
  \<open>_deserialize(fds, data)\<close>: the rest of the data and the value or closing marker. The
  loops of the \<open>ARRAY_START\<close> and \<open>DICT_START\<close> branches are \<open>deserialize_array\<close> and
  \<open>deserialize_dict\<close>, with the local \<open>result\<close> as their last argument.
\<close>

function (sequential) deserialize' :: "nat \<Rightarrow> Fd list \<Rightarrow> bytes \<Rightarrow> (exc + bytes \<times> item) option"
  and deserialize_array :: "nat \<Rightarrow> Fd list \<Rightarrow> bytes \<Rightarrow> native list \<Rightarrow> (exc + bytes \<times> item) option"
  and deserialize_dict ::
    "nat \<Rightarrow> Fd list \<Rightarrow> bytes \<Rightarrow> (native \<times> native) list \<Rightarrow> (exc + bytes \<times> item) option"
where
  "deserialize' 0 fds data = None"
| "deserialize' (Suc n) fds data =
     on_value (Some (int_from_bytes (py_slice data 0 4))) (\<lambda>type.
       if type = marker_value NONE then Some (Inr (py_slice_from data 4, Value VNone))
       else if type = marker_value FALSE then Some (Inr (py_slice_from data 4, Value (VBool False)))
       else if type = marker_value TRUE then Some (Inr (py_slice_from data 4, Value (VBool True)))
       else if type = marker_value FD then
         on_value (Some (int_from_bytes (py_slice data 4 8))) (\<lambda>i.
         on_value (Some (py_index fds i)) (\<lambda>fd.
         Some (Inr (py_slice_from data 8, Value (VFd fd)))))
       else if type = marker_value INT64 then
         on_value (Some (int_from_bytes (py_slice data 4 12))) (\<lambda>i.
         Some (Inr (py_slice_from data 12, Value (VInt i))))
       else if type = marker_value DOUBLE then
         on_value (Some (float_from_bytes (py_slice data 4 12))) (\<lambda>x.
         Some (Inr (py_slice_from data 12, Value (VFloat x))))
       else if type = marker_value STRING then
         on_value (Some (int_from_bytes (py_slice data 4 8))) (\<lambda>n.
         on_value (Some (utf8_decode (py_slice data 8 (8 + n)))) (\<lambda>s.
         Some (Inr (py_slice_from data (8 + n), Value (VStr s)))))
       else if type = marker_value BYTES then
         on_value (Some (int_from_bytes (py_slice data 4 8))) (\<lambda>n.
         Some (Inr (py_slice_from data (8 + n), Value (VBytes (py_slice data 8 (8 + n))))))
       else if type = marker_value ARRAY_START then
         deserialize_array n fds (py_slice_from data 4) []
       else if type = marker_value DICT_START then
         deserialize_dict n fds (py_slice_from data 4) []
       else if type = marker_value DICT_END then
         Some (Inr (py_slice_from data 4, Marker DICT_END))
       else if type = marker_value ARRAY_END then
         Some (Inr (py_slice_from data 4, Marker ARRAY_END))
       else Some (Inl DecoderError))"
| "deserialize_array 0 fds data result = None"
| "deserialize_array (Suc n) fds data result =
     on_value (deserialize' n fds data) (\<lambda>(data, v).
       case v of
         Marker m \<Rightarrow>
           if m = ARRAY_END then Some (Inr (data, Value (VList result)))
           else Some (Inl DecoderError)
       | Value x \<Rightarrow> deserialize_array n fds data (result @ [x]))"
| "deserialize_dict 0 fds data result = None"
| "deserialize_dict (Suc n) fds data result =
     on_value (deserialize' n fds data) (\<lambda>(data, key).
       case key of
         Marker m \<Rightarrow>
           if m = DICT_END then Some (Inr (data, Value (VDict result)))
           else Some (Inl DecoderError)
       | Value k \<Rightarrow>
           on_value (deserialize' n fds data) (\<lambda>(data, v).
             case v of
               Marker m \<Rightarrow> Some (Inl DecoderError)
             | Value x \<Rightarrow>
                 on_value (Some (dict_setitem result k x)) (\<lambda>result.
                 deserialize_dict n fds data result)))"
  by pat_completeness auto
termination
  by (relation "measure (\<lambda>x. case x of
         Inl (n, fds, data) \<Rightarrow> n
       | Inr (Inl (n, fds, data, result)) \<Rightarrow> n
       | Inr (Inr (n, fds, data, result)) \<Rightarrow> n)") auto

text \<open>
  The exceptions that \<open>deserialize\<close> catches: \<open>except (ValueError, IndexError,
  struct.error)\<close>, with the subclasses of \<open>ValueError\<close>.
\<close>

fun caught :: "exc \<Rightarrow> bool" where
  "caught ValueError = True"
| "caught UnicodeDecodeError = True"
| "caught UnicodeEncodeError = True"
| "caught IndexError = True"
| "caught StructError = True"
| "caught _ = False"

text \<open>\<open>deserialize(data, fds)\<close>.\<close>

definition deserialize :: "nat \<Rightarrow> bytes \<Rightarrow> Fd list \<Rightarrow> (exc + native) option" where
  "deserialize fuel data fds =
     (case deserialize' fuel fds data of
        None \<Rightarrow> None
      | Some (Inl e) \<Rightarrow> Some (Inl (if caught e then DecoderError else e))
      | Some (Inr (end, v)) \<Rightarrow>
          if end \<noteq> [] then Some (Inl DecoderError)
          else (case v of
                  Marker m \<Rightarrow> Some (Inl DecoderError)
                | Value x \<Rightarrow> Some (Inr x)))"

section \<open>deserialize: a length prefix beyond the end of the data\<close>

text \<open>
  C6 fails on the code. The data \<open>05 00 00 00 | 05 00 00 00 | 61 62\<close> are a \<open>STRING\<close> marker,
  the length 5 and only two bytes of payload. The slices \<open>data[8:end]\<close> and \<open>data[end:]\<close>
  are cut at the end of the data without an error, so \<open>deserialize\<close> returns the string
  \<open>'ab'\<close>; and with the \<open>BYTES\<close> marker it returns the bytes \<open>b'ab'\<close>. No \<open>DecoderError\<close> is
  raised.
\<close>

theorem deserialize_short_payload:
  "deserialize (Suc 0) [5, 0, 0, 0, 5, 0, 0, 0, 97, 98] [] = Some (Inr (VStr [97, 98])) \<and>
   deserialize (Suc 0) [6, 0, 0, 0, 5, 0, 0, 0, 97, 98] [] = Some (Inr (VBytes [97, 98]))"
  by code_simp

section \<open>serialize: the FD table and the unsupported bytearray\<close>

declare marker_value.simps [simp del]

text \<open>The four bytes of a marker.\<close>

definition marker_bytes :: "Markers \<Rightarrow> bytes" where
  "marker_bytes m = le_encode 4 (nat (marker_value m))"

text \<open>
  After the spec's words (C8): the FD handles of a value, in the order in which the
  recursive descent meets them (the items of an array in order; of a map, each key before
  its value).
\<close>

fun fds_of :: "native \<Rightarrow> Fd list" where
  "fds_of (VFd fd) = [fd]"
| "fds_of (VList xs) = concat (map fds_of xs)"
| "fds_of (VTuple xs) = concat (map fds_of xs)"
| "fds_of (VDict kvs) = concat (map (\<lambda>(k, v). fds_of k @ fds_of v) kvs)"
| "fds_of _ = []"

text \<open>
  After the spec's words (C8): the bytes of a value when the FDs it holds are given the
  indices \<open>n, n + 1, \<dots>\<close> in the order of \<open>fds_of\<close>, each written as the \<open>FD\<close> marker and
  its index. A value that is neither an FD nor a container holds no FD; its bytes are
  the ones \<open>_serialize\<close> writes for it.
\<close>

function (sequential) wire :: "nat \<Rightarrow> native \<Rightarrow> bytes"
  and wire_items :: "nat \<Rightarrow> native list \<Rightarrow> bytes"
  and wire_entries :: "nat \<Rightarrow> (native \<times> native) list \<Rightarrow> bytes"
where
  "wire n (VFd fd) = marker_bytes FD @ le_encode 4 n"
| "wire n (VList xs) = marker_bytes ARRAY_START @ wire_items n xs @ marker_bytes ARRAY_END"
| "wire n (VTuple xs) = marker_bytes ARRAY_START @ wire_items n xs @ marker_bytes ARRAY_END"
| "wire n (VDict kvs) = marker_bytes DICT_START @ wire_entries n kvs @ marker_bytes DICT_END"
| "wire n v = (case serialize' [] [] v of Inr (out, fds) \<Rightarrow> out | Inl e \<Rightarrow> [])"
| "wire_items n [] = []"
| "wire_items n (x # xs) = wire n x @ wire_items (n + length (fds_of x)) xs"
| "wire_entries n [] = []"
| "wire_entries n ((k, v) # kvs) =
     wire n k @ wire (n + length (fds_of k)) v @
     wire_entries (n + length (fds_of k) + length (fds_of v)) kvs"
  by pat_completeness auto
termination
  by (relation "measure (\<lambda>x. case x of
         Inl (n, v) \<Rightarrow> size v
       | Inr (Inl (n, xs)) \<Rightarrow> size_list size xs
       | Inr (Inr (n, kvs)) \<Rightarrow> size_list (size_prod size size) kvs)") auto

lemma on_ok_Inr: "on_ok m f = Inr r \<longleftrightarrow> (\<exists>x. m = Inr x \<and> f x = Inr r)"
  by (cases m) (simp_all add: on_ok_def)

lemma on_ok_simps [simp]: "on_ok (Inl e) f = Inl e" "on_ok (Inr x) f = f x"
  by (simp_all add: on_ok_def)

lemma add_int32_Inr:
  "add_int32 b n = Inr r \<longleftrightarrow> 0 \<le> n \<and> n < 2 ^ 32 \<and> r = b @ le_encode 4 (nat n)"
  by (auto simp: add_int32_def int32_to_bytes_def)

lemma add_marker [simp]: "add_int32 b (marker_value m) = Inr (b @ marker_bytes m)"
  by (cases m) (simp_all add: add_int32_def int32_to_bytes_def marker_bytes_def marker_value.simps)

lemma add_int32_length:
  "add_int32 b (int n) = (if n < 2 ^ 32 then Inr (b @ le_encode 4 n) else Inl StructError)"
  by (auto simp: add_int32_def int32_to_bytes_def)

declare add_int32_length [simp]

lemma serialize_wire:
  "serialize' buffer fds v = Inr (out, fds') \<Longrightarrow>
     out = buffer @ wire (length fds) v \<and> fds' = fds @ fds_of v"
  "serialize_items buffer fds xs = Inr (out, fds') \<Longrightarrow>
     out = buffer @ wire_items (length fds) xs \<and> fds' = fds @ concat (map fds_of xs)"
  "serialize_entries buffer fds kvs = Inr (out, fds') \<Longrightarrow>
     out = buffer @ wire_entries (length fds) kvs \<and>
     fds' = fds @ concat (map (\<lambda>(k, v). fds_of k @ fds_of v) kvs)"
proof (induction buffer fds v and buffer fds xs and buffer fds kvs
    arbitrary: out fds' and out fds' and out fds'
    rule: serialize'_serialize_items_serialize_entries.induct)
  case (1 buffer fds)
  then show ?case by simp
next
  case (2 buffer fds b)
  then show ?case by (simp split: if_splits)
next
  case (3 buffer fds i)
  then show ?case by (auto simp: on_ok_Inr)
next
  case (4 buffer fds x)
  then show ?case by simp
next
  case (5 buffer fds s)
  then show ?case by (auto simp: on_ok_Inr split: if_splits)
next
  case (6 buffer fds v)
  then show ?case by (auto simp: on_ok_Inr split: if_splits)
next
  case (7 buffer fds v)
  then show ?case
    by (auto simp: on_ok_Inr len_memoryview_def add_memoryview_def split: if_splits option.splits)
next
  case (8 buffer fds xs)
  have m: "add_int32 buffer (marker_value ARRAY_START) = Inr (buffer @ marker_bytes ARRAY_START)"
    by simp
  from "8.prems" obtain a where a: "serialize_items (buffer @ marker_bytes ARRAY_START) fds xs = Inr (a, fds')"
    and o: "out = a @ marker_bytes ARRAY_END"
    by (auto simp: on_ok_Inr split: prod.splits)
  from "8.IH" [OF m a] o show ?case by simp
next
  case (9 buffer fds xs)
  have m: "add_int32 buffer (marker_value ARRAY_START) = Inr (buffer @ marker_bytes ARRAY_START)"
    by simp
  from "9.prems" obtain a where a: "serialize_items (buffer @ marker_bytes ARRAY_START) fds xs = Inr (a, fds')"
    and o: "out = a @ marker_bytes ARRAY_END"
    by (auto simp: on_ok_Inr split: prod.splits)
  from "9.IH" [OF m a] o show ?case by simp
next
  case (10 buffer fds kvs)
  have m: "add_int32 buffer (marker_value DICT_START) = Inr (buffer @ marker_bytes DICT_START)"
    by simp
  from "10.prems" obtain a where a: "serialize_entries (buffer @ marker_bytes DICT_START) fds kvs = Inr (a, fds')"
    and o: "out = a @ marker_bytes DICT_END"
    by (auto simp: on_ok_Inr split: prod.splits)
  from "10.IH" [OF m a] o show ?case by simp
next
  case (11 buffer fds fd)
  then show ?case by (auto simp: on_ok_Inr split: if_splits)
next
  case (12 buffer fds v)
  then show ?case by simp
next
  case (13 buffer fds)
  then show ?case by simp
next
  case (14 buffer fds x xs)
  from "14.prems" obtain b f where 1: "serialize' buffer fds x = Inr (b, f)"
    and 2: "serialize_items b f xs = Inr (out, fds')"
    by (auto simp: on_ok_Inr split: prod.splits)
  from "14.IH"(1) [OF 1] "14.IH"(2) [OF 1 refl 2] show ?case by simp
next
  case (15 buffer fds)
  then show ?case by simp
next
  case (16 buffer fds k v kvs)
  from "16.prems" obtain b f b' f' where 1: "serialize' buffer fds k = Inr (b, f)"
    and 2: "serialize' b f v = Inr (b', f')"
    and 3: "serialize_entries b' f' kvs = Inr (out, fds')"
    by (auto simp: on_ok_Inr split: prod.splits)
  from "16.IH"(1) [OF 1] "16.IH"(2) [OF 1 refl 2] "16.IH"(3) [OF 1 refl 2 refl 3]
  show ?case by (simp add: add.assoc)
qed


text \<open>Whether a value is a \<open>bytearray\<close> or holds one, at any depth.\<close>

fun has_bytearray :: "native \<Rightarrow> bool" where
  "has_bytearray (VByteArray b) = True"
| "has_bytearray (VList xs) = list_ex has_bytearray xs"
| "has_bytearray (VTuple xs) = list_ex has_bytearray xs"
| "has_bytearray (VDict kvs) = list_ex (\<lambda>(k, v). has_bytearray k \<or> has_bytearray v) kvs"
| "has_bytearray _ = False"

text \<open>
  What the conversions ask of the parts of a value: an \<open>int\<close> fits 64 bits, a \<open>str\<close> has
  no surrogate, the length of every string (in UTF-8) and of every bytes object fits
  the 32-bit length prefix, and every \<open>memoryview\<close> has a length, which fits the prefix,
  and is contiguous.
\<close>

fun leaves_ok :: "native \<Rightarrow> bool" where
  "leaves_ok (VInt i) = (- (2 ^ 63) \<le> i \<and> i < 2 ^ 63)"
| "leaves_ok (VStr s) = (list_all scalar_value s \<and> length (concat (map utf8_char s)) < 2 ^ 32)"
| "leaves_ok (VBytes b) = (length b < 2 ^ 32)"
| "leaves_ok (VMemoryview m) =
     (mv_contiguous m \<and> (case mv_len m of None \<Rightarrow> False | Some n \<Rightarrow> n < 2 ^ 32))"
| "leaves_ok (VList xs) = list_all leaves_ok xs"
| "leaves_ok (VTuple xs) = list_all leaves_ok xs"
| "leaves_ok (VDict kvs) = list_all (\<lambda>(k, v). leaves_ok k \<and> leaves_ok v) kvs"
| "leaves_ok _ = True"

text \<open>
  Whether \<open>_serialize\<close> comes to a \<open>bytearray\<close> of the value before anything else raises:
  the value is a \<open>bytearray\<close>, or it is a list, tuple or dict in which every item (key
  and value, for a dict) before the first one that holds a \<open>bytearray\<close> can be
  converted, and for that item the same is true. The loops of \<open>_serialize\<close> go through
  the items in their order and stop at the first exception.
\<close>

function (sequential) bytearray_first :: "native \<Rightarrow> bool"
  and bytearray_first_items :: "native list \<Rightarrow> bool"
  and bytearray_first_entries :: "(native \<times> native) list \<Rightarrow> bool"
where
  "bytearray_first (VByteArray b) = True"
| "bytearray_first (VList xs) = bytearray_first_items xs"
| "bytearray_first (VTuple xs) = bytearray_first_items xs"
| "bytearray_first (VDict kvs) = bytearray_first_entries kvs"
| "bytearray_first v = False"
| "bytearray_first_items [] = False"
| "bytearray_first_items (x # xs) =
     (if has_bytearray x then bytearray_first x else leaves_ok x \<and> bytearray_first_items xs)"
| "bytearray_first_entries [] = False"
| "bytearray_first_entries ((k, v) # kvs) =
     (if has_bytearray k then bytearray_first k
      else leaves_ok k \<and>
        (if has_bytearray v then bytearray_first v
         else leaves_ok v \<and> bytearray_first_entries kvs))"
  by pat_completeness auto
termination
  by (relation "measure (\<lambda>x. case x of
         Inl v \<Rightarrow> size v
       | Inr (Inl xs) \<Rightarrow> size_list size xs
       | Inr (Inr kvs) \<Rightarrow> size_list (size_prod size size) kvs)") auto

lemma serialize_result:
  "leaves_ok v \<Longrightarrow> length fds + length (fds_of v) \<le> 2 ^ 32 \<Longrightarrow>
     serialize' buffer fds v =
       (if has_bytearray v then Inl EncoderError
        else Inr (buffer @ wire (length fds) v, fds @ fds_of v))"
  "list_all leaves_ok xs \<Longrightarrow> length fds + length (concat (map fds_of xs)) \<le> 2 ^ 32 \<Longrightarrow>
     serialize_items buffer fds xs =
       (if list_ex has_bytearray xs then Inl EncoderError
        else Inr (buffer @ wire_items (length fds) xs, fds @ concat (map fds_of xs)))"
  "list_all (\<lambda>(k, v). leaves_ok k \<and> leaves_ok v) kvs \<Longrightarrow>
   length fds + length (concat (map (\<lambda>(k, v). fds_of k @ fds_of v) kvs)) \<le> 2 ^ 32 \<Longrightarrow>
     serialize_entries buffer fds kvs =
       (if list_ex (\<lambda>(k, v). has_bytearray k \<or> has_bytearray v) kvs then Inl EncoderError
        else Inr (buffer @ wire_entries (length fds) kvs,
                  fds @ concat (map (\<lambda>(k, v). fds_of k @ fds_of v) kvs)))"
proof (induction buffer fds v and buffer fds xs and buffer fds kvs
    rule: serialize'_serialize_items_serialize_entries.induct)
  case (1 buffer fds)
  then show ?case by simp
next
  case (2 buffer fds b)
  then show ?case by simp
next
  case (3 buffer fds i)
  then show ?case by (simp add: int64_to_bytes_def)
next
  case (4 buffer fds x)
  then show ?case by simp
next
  case (5 buffer fds s)
  then show ?case by (simp add: utf8_encode_def)
next
  case (6 buffer fds v)
  then show ?case by simp
next
  case (7 buffer fds v)
  then show ?case by (auto simp: len_memoryview_def add_memoryview_def split: option.splits)
next
  case (8 buffer fds xs)
  have m: "add_int32 buffer (marker_value ARRAY_START) = Inr (buffer @ marker_bytes ARRAY_START)"
    by simp
  from "8.IH" [OF m] "8.prems" show ?case by simp
next
  case (9 buffer fds xs)
  have m: "add_int32 buffer (marker_value ARRAY_START) = Inr (buffer @ marker_bytes ARRAY_START)"
    by simp
  from "9.IH" [OF m] "9.prems" show ?case by simp
next
  case (10 buffer fds kvs)
  have m: "add_int32 buffer (marker_value DICT_START) = Inr (buffer @ marker_bytes DICT_START)"
    by simp
  from "10.IH" [OF m] "10.prems" show ?case by simp
next
  case (11 buffer fds fd)
  then show ?case by simp
next
  case (12 buffer fds v)
  then show ?case by simp
next
  case (13 buffer fds)
  then show ?case by simp
next
  case (14 buffer fds x xs)
  from "14.prems" have okx: "leaves_ok x" "length fds + length (fds_of x) \<le> 2 ^ 32" by simp_all
  note x = "14.IH"(1) [OF okx]
  show ?case
  proof (cases "has_bytearray x")
    case True
    with x show ?thesis by simp
  next
    case False
    with x have 1: "serialize' buffer fds x = Inr (buffer @ wire (length fds) x, fds @ fds_of x)"
      by simp
    from "14.prems" have "list_all leaves_ok xs"
      "length (fds @ fds_of x) + length (concat (map fds_of xs)) \<le> 2 ^ 32" by simp_all
    from "14.IH"(2) [OF 1 refl this] 1 False show ?thesis by simp
  qed
next
  case (15 buffer fds)
  then show ?case by simp
next
  case (16 buffer fds k v kvs)
  from "16.prems" have okk: "leaves_ok k" "length fds + length (fds_of k) \<le> 2 ^ 32" by simp_all
  note k = "16.IH"(1) [OF okk]
  show ?case
  proof (cases "has_bytearray k")
    case True
    with k show ?thesis by simp
  next
    case nk: False
    with k have 1: "serialize' buffer fds k = Inr (buffer @ wire (length fds) k, fds @ fds_of k)"
      by simp
    from "16.prems" have okv: "leaves_ok v"
      "length (fds @ fds_of k) + length (fds_of v) \<le> 2 ^ 32" by simp_all
    note v = "16.IH"(2) [OF 1 refl okv]
    show ?thesis
    proof (cases "has_bytearray v")
      case True
      with v 1 show ?thesis by simp
    next
      case nv: False
      with v have 2: "serialize' (buffer @ wire (length fds) k) (fds @ fds_of k) v =
          Inr ((buffer @ wire (length fds) k) @ wire (length (fds @ fds_of k)) v,
               (fds @ fds_of k) @ fds_of v)"
        by simp
      from "16.prems" have "list_all (\<lambda>(k, v). leaves_ok k \<and> leaves_ok v) kvs"
        "length ((fds @ fds_of k) @ fds_of v) +
           length (concat (map (\<lambda>(k, v). fds_of k @ fds_of v) kvs)) \<le> 2 ^ 32" by simp_all
      from "16.IH"(3) [OF 1 refl 2 refl this] 1 2 nk nv show ?thesis by (simp add: add.assoc)
    qed
  qed
qed

lemma bytearray_fails:
  "has_bytearray v \<Longrightarrow> isl (serialize' buffer fds v)"
  "list_ex has_bytearray xs \<Longrightarrow> isl (serialize_items buffer fds xs)"
  "list_ex (\<lambda>(k, v). has_bytearray k \<or> has_bytearray v) kvs \<Longrightarrow> isl (serialize_entries buffer fds kvs)"
proof (induction buffer fds v and buffer fds xs and buffer fds kvs
    rule: serialize'_serialize_items_serialize_entries.induct)
  case (8 buffer fds xs)
  have m: "add_int32 buffer (marker_value ARRAY_START) = Inr (buffer @ marker_bytes ARRAY_START)"
    by simp
  from "8.IH" [OF m] "8.prems" show ?case by (auto simp: on_ok_def split: sum.splits)
next
  case (9 buffer fds xs)
  have m: "add_int32 buffer (marker_value ARRAY_START) = Inr (buffer @ marker_bytes ARRAY_START)"
    by simp
  from "9.IH" [OF m] "9.prems" show ?case by (auto simp: on_ok_def split: sum.splits)
next
  case (10 buffer fds kvs)
  have m: "add_int32 buffer (marker_value DICT_START) = Inr (buffer @ marker_bytes DICT_START)"
    by simp
  from "10.IH" [OF m] "10.prems" show ?case by (auto simp: on_ok_def split: sum.splits)
next
  case (14 buffer fds x xs)
  then show ?case by (cases "serialize' buffer fds x") (auto split: prod.splits)
next
  case (16 buffer fds k v kvs)
  show ?case
  proof (cases "serialize' buffer fds k")
    case (Inl e)
    then show ?thesis by simp
  next
    case (Inr r)
    obtain b f where r: "r = (b, f)" by (cases r)
    with Inr have 1: "serialize' buffer fds k = Inr (b, f)" by simp
    show ?thesis
    proof (cases "serialize' b f v")
      case (Inl e)
      with 1 show ?thesis by simp
    next
      case (Inr r')
      obtain b' f' where r': "r' = (b', f')" by (cases r')
      with Inr have 2: "serialize' b f v = Inr (b', f')" by simp
      from "16.IH"(1) 1 have nk: "\<not> has_bytearray k" by auto
      from "16.IH"(2) [OF 1 refl] 2 have nv: "\<not> has_bytearray v" by auto
      from "16.prems" nk nv have "list_ex (\<lambda>(k, v). has_bytearray k \<or> has_bytearray v) kvs" by simp
      from "16.IH"(3) [OF 1 refl 2 refl this] 1 2 show ?thesis by simp
    qed
  qed
qed simp_all

lemma bytearray_first_raises:
  "bytearray_first v \<Longrightarrow> length fds + length (fds_of v) \<le> 2 ^ 32 \<Longrightarrow>
     serialize' buffer fds v = Inl EncoderError"
  "bytearray_first_items xs \<Longrightarrow> length fds + length (concat (map fds_of xs)) \<le> 2 ^ 32 \<Longrightarrow>
     serialize_items buffer fds xs = Inl EncoderError"
  "bytearray_first_entries kvs \<Longrightarrow>
   length fds + length (concat (map (\<lambda>(k, v). fds_of k @ fds_of v) kvs)) \<le> 2 ^ 32 \<Longrightarrow>
     serialize_entries buffer fds kvs = Inl EncoderError"
proof (induction buffer fds v and buffer fds xs and buffer fds kvs
    rule: serialize'_serialize_items_serialize_entries.induct)
  case (8 buffer fds xs)
  have m: "add_int32 buffer (marker_value ARRAY_START) = Inr (buffer @ marker_bytes ARRAY_START)"
    by simp
  from "8.IH" [OF m] "8.prems" show ?case by simp
next
  case (9 buffer fds xs)
  have m: "add_int32 buffer (marker_value ARRAY_START) = Inr (buffer @ marker_bytes ARRAY_START)"
    by simp
  from "9.IH" [OF m] "9.prems" show ?case by simp
next
  case (10 buffer fds kvs)
  have m: "add_int32 buffer (marker_value DICT_START) = Inr (buffer @ marker_bytes DICT_START)"
    by simp
  from "10.IH" [OF m] "10.prems" show ?case by simp
next
  case (14 buffer fds x xs)
  show ?case
  proof (cases "has_bytearray x")
    case True
    with "14.prems" have "bytearray_first x" "length fds + length (fds_of x) \<le> 2 ^ 32" by simp_all
    from "14.IH"(1) [OF this] show ?thesis by simp
  next
    case False
    with "14.prems" have okx: "leaves_ok x" "length fds + length (fds_of x) \<le> 2 ^ 32" by simp_all
    from serialize_result(1) [OF okx] False
    have 1: "serialize' buffer fds x = Inr (buffer @ wire (length fds) x, fds @ fds_of x)"
      by simp
    from "14.prems" False have "bytearray_first_items xs"
      "length (fds @ fds_of x) + length (concat (map fds_of xs)) \<le> 2 ^ 32" by simp_all
    from "14.IH"(2) [OF 1 refl this] 1 show ?thesis by simp
  qed
next
  case (16 buffer fds k v kvs)
  show ?case
  proof (cases "has_bytearray k")
    case True
    with "16.prems" have "bytearray_first k" "length fds + length (fds_of k) \<le> 2 ^ 32" by simp_all
    from "16.IH"(1) [OF this] show ?thesis by simp
  next
    case nk: False
    with "16.prems" have okk: "leaves_ok k" "length fds + length (fds_of k) \<le> 2 ^ 32" by simp_all
    from serialize_result(1) [OF okk] nk
    have 1: "serialize' buffer fds k = Inr (buffer @ wire (length fds) k, fds @ fds_of k)"
      by simp
    show ?thesis
    proof (cases "has_bytearray v")
      case True
      with "16.prems" nk have "bytearray_first v"
        "length (fds @ fds_of k) + length (fds_of v) \<le> 2 ^ 32" by simp_all
      from "16.IH"(2) [OF 1 refl this] 1 show ?thesis by simp
    next
      case nv: False
      with "16.prems" nk have okv: "leaves_ok v"
        "length (fds @ fds_of k) + length (fds_of v) \<le> 2 ^ 32" by simp_all
      from serialize_result(1) [OF okv] nv
      have 2: "serialize' (buffer @ wire (length fds) k) (fds @ fds_of k) v =
          Inr ((buffer @ wire (length fds) k) @ wire (length (fds @ fds_of k)) v,
               (fds @ fds_of k) @ fds_of v)"
        by simp
      from "16.prems" nk nv have "bytearray_first_entries kvs"
        "length ((fds @ fds_of k) @ fds_of v) +
           length (concat (map (\<lambda>(k, v). fds_of k @ fds_of v) kvs)) \<le> 2 ^ 32" by simp_all
      from "16.IH"(3) [OF 1 refl 2 refl this] 1 2 show ?thesis by simp
    qed
  qed
qed simp_all

text \<open>
  C8. \<open>_serialize\<close> writes an \<open>Fd\<close> as the \<open>FD\<close> marker and the length of the FD list as it is
  then, and appends the \<open>Fd\<close> to the list. So whenever \<open>_serialize\<close> returns, the bytes it
  has added are \<open>wire\<close> from the length of the list it was given: the FDs of the value are
  numbered in the order of the descent; and the list has grown by these FDs in that
  order. For \<open>serialize\<close> the numbering starts at \<open>0\<close> and the list returned is \<open>fds_of\<close>.
  \<open>serialize\<close> returns for every value whose parts can be converted, that holds no
  \<open>bytearray\<close>, and whose FDs can be numbered in 32 bits.
\<close>

theorem fd_table:
  "serialize' buffer fds (VFd fd) =
     (if length fds < 2 ^ 32
      then Inr (buffer @ marker_bytes FD @ le_encode 4 (length fds), fds @ [fd])
      else Inl StructError) \<and>
   (serialize' buffer fds v = Inr (out, fds') \<longrightarrow>
      out = buffer @ wire (length fds) v \<and> fds' = fds @ fds_of v) \<and>
   (serialize v = Inr (data, fds'') \<longrightarrow> data = wire 0 v \<and> fds'' = fds_of v) \<and>
   (leaves_ok v \<and> \<not> has_bytearray v \<and> length (fds_of v) \<le> 2 ^ 32 \<longrightarrow>
      serialize v = Inr (wire 0 v, fds_of v))"
proof (intro conjI impI)
  show "serialize' buffer fds (VFd fd) =
     (if length fds < 2 ^ 32
      then Inr (buffer @ marker_bytes FD @ le_encode 4 (length fds), fds @ [fd])
      else Inl StructError)"
    by simp
  show "out = buffer @ wire (length fds) v" "fds' = fds @ fds_of v"
    if "serialize' buffer fds v = Inr (out, fds')"
    using serialize_wire(1) [OF that] by simp_all
  show "data = wire 0 v" "fds'' = fds_of v" if "serialize v = Inr (data, fds'')"
    using serialize_wire(1) [of "[]" "[]" v data fds''] that by (simp_all add: serialize_def)
  show "serialize v = Inr (wire 0 v, fds_of v)"
    if "leaves_ok v \<and> \<not> has_bytearray v \<and> length (fds_of v) \<le> 2 ^ 32"
    using serialize_result(1) [of v "[]" "[]"] that by (simp add: serialize_def)
qed

theorem fd_table_witness:
  "serialize (VList [VFd \<lparr>fd_value = 7, fd_auto_close = True\<rparr>,
                     VDict [(VInt 1, VFd \<lparr>fd_value = 9, fd_auto_close = True\<rparr>)]])
     = Inr ([7, 0, 0, 0, 11, 0, 0, 0, 0, 0, 0, 0, 9, 0, 0, 0, 3, 0, 0, 0, 1, 0, 0, 0, 0, 0, 0, 0,
             11, 0, 0, 0, 1, 0, 0, 0, 10, 0, 0, 0, 8, 0, 0, 0],
            [\<lparr>fd_value = 7, fd_auto_close = True\<rparr>, \<lparr>fd_value = 9, fd_auto_close = True\<rparr>]) \<and>
   wire 0 (VList [VFd \<lparr>fd_value = 7, fd_auto_close = True\<rparr>,
                  VDict [(VInt 1, VFd \<lparr>fd_value = 9, fd_auto_close = True\<rparr>)]])
     = [7, 0, 0, 0, 11, 0, 0, 0, 0, 0, 0, 0, 9, 0, 0, 0, 3, 0, 0, 0, 1, 0, 0, 0, 0, 0, 0, 0,
        11, 0, 0, 0, 1, 0, 0, 0, 10, 0, 0, 0, 8, 0, 0, 0] \<and>
   fds_of (VList [VFd \<lparr>fd_value = 7, fd_auto_close = True\<rparr>,
                  VDict [(VInt 1, VFd \<lparr>fd_value = 9, fd_auto_close = True\<rparr>)]])
     = [\<lparr>fd_value = 7, fd_auto_close = True\<rparr>, \<lparr>fd_value = 9, fd_auto_close = True\<rparr>]"
proof -
  let ?v = "VList [VFd \<lparr>fd_value = 7, fd_auto_close = True\<rparr>,
                   VDict [(VInt 1, VFd \<lparr>fd_value = 9, fd_auto_close = True\<rparr>)]]"
  have e: "serialize ?v
     = Inr ([7, 0, 0, 0, 11, 0, 0, 0, 0, 0, 0, 0, 9, 0, 0, 0, 3, 0, 0, 0, 1, 0, 0, 0, 0, 0, 0, 0,
             11, 0, 0, 0, 1, 0, 0, 0, 10, 0, 0, 0, 8, 0, 0, 0],
            [\<lparr>fd_value = 7, fd_auto_close = True\<rparr>, \<lparr>fd_value = 9, fd_auto_close = True\<rparr>])"
    by code_simp
  from fd_table [of _ _ _ ?v _ _
      "[7, 0, 0, 0, 11, 0, 0, 0, 0, 0, 0, 0, 9, 0, 0, 0, 3, 0, 0, 0, 1, 0, 0, 0, 0, 0, 0, 0,
        11, 0, 0, 0, 1, 0, 0, 0, 10, 0, 0, 0, 8, 0, 0, 0]"
      "[\<lparr>fd_value = 7, fd_auto_close = True\<rparr>, \<lparr>fd_value = 9, fd_auto_close = True\<rparr>]"] e
  show ?thesis by simp
qed

text \<open>
  C10 (as the code has it). \<open>serialize\<close> of a \<open>bytearray\<close> raises \<open>EncoderError\<close>. A value that
  holds a \<open>bytearray\<close> at any depth is never serialized: \<open>serialize\<close> raises; and the
  exception is the \<open>EncoderError\<close> of the \<open>bytearray\<close> whenever every part of the value that
  \<open>_serialize\<close> meets before its first \<open>bytearray\<close> can be converted (and the FDs of the
  value can be numbered in 32 bits), whatever comes after the \<open>bytearray\<close>.
\<close>

theorem bytearray_rejected:
  "serialize (VByteArray b) = Inl EncoderError \<and>
   (has_bytearray v \<longrightarrow> isl (serialize v)) \<and>
   (bytearray_first v \<and> length (fds_of v) \<le> 2 ^ 32 \<longrightarrow> serialize v = Inl EncoderError)"
proof (intro conjI impI)
  show "serialize (VByteArray b) = Inl EncoderError" by (simp add: serialize_def)
  show "isl (serialize v)" if "has_bytearray v"
    using bytearray_fails(1) [OF that] by (simp add: serialize_def)
  show "serialize v = Inl EncoderError"
    if "bytearray_first v \<and> length (fds_of v) \<le> 2 ^ 32"
    using bytearray_first_raises(1) [of v "[]" "[]"] that by (simp add: serialize_def)
qed

theorem bytearray_rejected_witness:
  "has_bytearray (VList [VInt 1, VDict [(VStr [107], VTuple [VByteArray [1, 2]])], VStr [0xD800]]) \<and>
   bytearray_first (VList [VInt 1, VDict [(VStr [107], VTuple [VByteArray [1, 2]])], VStr [0xD800]]) \<and>
   serialize (VList [VInt 1, VDict [(VStr [107], VTuple [VByteArray [1, 2]])], VStr [0xD800]])
     = Inl EncoderError \<and>
   serialize (VByteArray [1, 2]) = Inl EncoderError"
proof -
  let ?v = "VList [VInt 1, VDict [(VStr [107], VTuple [VByteArray [1, 2]])], VStr [0xD800]]"
  have h: "has_bytearray ?v" by simp
  have l: "bytearray_first ?v" by (simp add: scalar_value_def utf8_char_def)
  have f: "length (fds_of ?v) \<le> 2 ^ 32" by simp
  from bytearray_rejected [of "[1, 2]" ?v] h l f show ?thesis by simp
qed

text \<open>
  C10 as stated fails: the exception is not always \<open>EncoderError\<close>. In the list
  \<open>['\ud800', bytearray(b'x')]\<close> the string comes first, and \<open>value.encode('utf-8')\<close> raises
  \<open>UnicodeEncodeError\<close> for the lone surrogate before the loop comes to the \<open>bytearray\<close>.
\<close>

theorem bytearray_after_surrogate_counterexample:
  "serialize (VList [VStr [0xD800], VByteArray [120]]) = Inl UnicodeEncodeError"
  by (simp add: serialize_def utf8_encode_def scalar_value_def)

section \<open>The conversions, the slices and UTF-8: round trips\<close>

lemma length_le_encode [simp]: "length (le_encode k n) = k"
  by (induction k arbitrary: n) simp_all

lemma le_decode_encode: "n < 256 ^ k \<Longrightarrow> le_decode (le_encode k n) = n"
proof (induction k arbitrary: n)
  case 0
  then show ?case by simp
next
  case (Suc k)
  then have "n div 256 < 256 ^ k" by (simp add: less_mult_imp_div_less mult.commute)
  then have "le_decode (le_encode k (n div 256)) = n div 256" by (rule Suc.IH)
  moreover have "unat (of_nat (n mod 256) :: byte) = n mod 256"
    by (simp add: unat_of_nat)
  ultimately show ?case by simp
qed

lemma int_from_bytes_32: "n < 2 ^ 32 \<Longrightarrow> int_from_bytes (le_encode 4 n) = Inr (int n)"
  using le_decode_encode [of n 4] by (simp add: int_from_bytes_def)

lemma int_from_bytes_8:
  "u < 2 ^ 64 \<Longrightarrow>
   int_from_bytes (le_encode 8 u) = Inr (if u < 2 ^ 63 then int u else int u - 2 ^ 64)"
  using le_decode_encode [of u 8] by (simp add: int_from_bytes_def)

lemma int_from_bytes_64:
  assumes "- (2 ^ 63) \<le> i" "i < 2 ^ 63"
  shows "int_from_bytes (le_encode 8 (nat (i mod 2 ^ 64))) = Inr i"
proof (cases "0 \<le> i")
  case True
  with assms have "i mod 2 ^ 64 = i" by simp
  moreover have "nat i < 2 ^ 63" "nat i < 2 ^ 64" using assms True by simp_all
  ultimately show ?thesis using True by (simp add: int_from_bytes_8)
next
  case False
  have "(i + 2 ^ 64) mod 2 ^ 64 = i + 2 ^ 64"
    using assms False by (intro mod_pos_pos_trivial) simp_all
  then have m: "i mod 2 ^ 64 = i + 2 ^ 64" by simp
  have "nat (i + 2 ^ 64) < 2 ^ 64" "\<not> nat (i + 2 ^ 64) < 2 ^ 63" using assms False by simp_all
  then show ?thesis using m assms False by (simp add: int_from_bytes_8)
qed

lemma float_from_to_bytes: "float_from_bytes (float_to_bytes x) = Inr x"
proof -
  have "unat x < 2 ^ 64" using unsigned_less [of x, where 'a = nat] by simp
  then have "unat x < 256 ^ 8" by simp
  then have "le_decode (le_encode 8 (unat x)) = unat x" by (rule le_decode_encode)
  then show ?thesis by (simp add: float_from_bytes_def float_to_bytes_def)
qed

lemma slice_prefix:
  "py_slice (xs @ ys) 0 (int (length xs)) = xs"
  by (simp add: py_slice_def slice_index_def)

lemma slice_middle:
  "py_slice (xs @ ys @ zs) (int (length xs)) (int (length xs) + int (length ys)) = ys"
  by (simp add: py_slice_def slice_index_def nat_add_distrib)

lemma slice_from:
  "py_slice_from (xs @ ys) (int (length xs)) = ys"
  by (simp add: py_slice_from_def slice_index_def)

lemma utf8_char_bytes: "c < 0x110000 \<Longrightarrow> b \<in> set (utf8_char c) \<Longrightarrow> b < 256"
  by (auto simp: utf8_char_def split: if_splits)

lemma utf8_points_1: "c < 0x80 \<Longrightarrow> utf8_points (utf8_char c @ bs) = map_option ((#) c) (utf8_points bs)"
  by (simp add: utf8_char_def)

lemma dec2:
  "2 \<le> q \<Longrightarrow> q < 32 \<Longrightarrow> r < 64 \<Longrightarrow>
   utf8_points ((0xC0 + q) # (0x80 + r) # bs) = map_option ((#) (q * 64 + r)) (utf8_points bs)"
  by (simp add: continuation_def)

lemma dec3:
  "q1 < 16 \<Longrightarrow> q2 < 64 \<Longrightarrow> r < 64 \<Longrightarrow> 0x800 \<le> q1 * 4096 + q2 * 64 + r \<Longrightarrow>
   scalar_value (q1 * 4096 + q2 * 64 + r) \<Longrightarrow>
   utf8_points ((0xE0 + q1) # (0x80 + q2) # (0x80 + r) # bs) =
     map_option ((#) (q1 * 4096 + q2 * 64 + r)) (utf8_points bs)"
  by (simp add: continuation_def Let_def)

lemma dec4:
  "q1 < 5 \<Longrightarrow> q2 < 64 \<Longrightarrow> q3 < 64 \<Longrightarrow> r < 64 \<Longrightarrow>
   0x10000 \<le> q1 * 262144 + q2 * 4096 + q3 * 64 + r \<Longrightarrow>
   scalar_value (q1 * 262144 + q2 * 4096 + q3 * 64 + r) \<Longrightarrow>
   utf8_points ((0xF0 + q1) # (0x80 + q2) # (0x80 + q3) # (0x80 + r) # bs) =
     map_option ((#) (q1 * 262144 + q2 * 4096 + q3 * 64 + r)) (utf8_points bs)"
  by (simp add: continuation_def Let_def)


lemma utf8_points_2:
  assumes "0x80 \<le> c" "c < 0x800"
  shows "utf8_points (utf8_char c @ bs) = map_option ((#) c) (utf8_points bs)"
proof -
  have ch: "utf8_char c = [0xC0 + c div 64, 0x80 + c mod 64]"
    using assms by (simp add: utf8_char_def)
  have b: "2 \<le> c div 64" "c div 64 < 32" "c mod 64 < 64" using assms by auto
  have d: "c div 64 * 64 + c mod 64 = c" by simp
  from dec2 [OF b, of bs] show ?thesis unfolding ch d by simp
qed

lemma split3: "(c::nat) div 4096 * 4096 + c div 64 mod 64 * 64 + c mod 64 = c"
proof -
  define x where "x = c div 64"
  have "c div 4096 = x div 64" by (simp add: x_def div_mult2_eq)
  moreover have "x div 64 * 4096 + x mod 64 * 64 = x * 64"
    using div_mult_mod_eq [of x 64] by linarith
  moreover have "x * 64 + c mod 64 = c" by (simp add: x_def)
  ultimately show ?thesis unfolding x_def [symmetric] by (simp only:)
qed

lemma split4:
  "(c::nat) div 262144 * 262144 + c div 4096 mod 64 * 4096 + c div 64 mod 64 * 64 + c mod 64 = c"
proof -
  define y where "y = c div 4096"
  have "c div 262144 = y div 64" by (simp add: y_def div_mult2_eq)
  moreover have "y div 64 * 262144 + y mod 64 * 4096 = y * 4096"
    using div_mult_mod_eq [of y 64] by linarith
  ultimately have "c div 262144 * 262144 + c div 4096 mod 64 * 4096 = c div 4096 * 4096"
    unfolding y_def [symmetric] by (simp only:)
  then have "c div 262144 * 262144 + c div 4096 mod 64 * 4096 + c div 64 mod 64 * 64 + c mod 64
      = c div 4096 * 4096 + c div 64 mod 64 * 64 + c mod 64" by (simp only:)
  then show ?thesis by (simp only: split3)
qed

lemma utf8_points_3:
  assumes "0x800 \<le> c" "c < 0x10000" "scalar_value c"
  shows "utf8_points (utf8_char c @ bs) = map_option ((#) c) (utf8_points bs)"
proof -
  have ch: "utf8_char c = [0xE0 + c div 4096, 0x80 + c div 64 mod 64, 0x80 + c mod 64]"
    using assms by (simp add: utf8_char_def)
  have b: "c div 4096 < 16" "c div 64 mod 64 < 64" "c mod 64 < 64" using assms by auto
  have "utf8_points ((0xE0 + c div 4096) # (0x80 + c div 64 mod 64) # (0x80 + c mod 64) # bs) =
     map_option ((#) (c div 4096 * 4096 + c div 64 mod 64 * 64 + c mod 64)) (utf8_points bs)"
    using assms(1,3) by (intro dec3 b) (simp_all only: split3)
  then show ?thesis unfolding ch split3 by simp
qed

lemma utf8_points_4:
  assumes "0x10000 \<le> c" "scalar_value c"
  shows "utf8_points (utf8_char c @ bs) = map_option ((#) c) (utf8_points bs)"
proof -
  have lt: "c < 0x110000" using assms by (simp add: scalar_value_def)
  have ch: "utf8_char c = [0xF0 + c div 262144, 0x80 + c div 4096 mod 64, 0x80 + c div 64 mod 64,
            0x80 + c mod 64]"
    using assms by (simp add: utf8_char_def)
  have b: "c div 262144 < 5" "c div 4096 mod 64 < 64" "c div 64 mod 64 < 64" "c mod 64 < 64"
    using lt by auto
  have "utf8_points ((0xF0 + c div 262144) # (0x80 + c div 4096 mod 64) # (0x80 + c div 64 mod 64) #
          (0x80 + c mod 64) # bs) =
     map_option ((#) (c div 262144 * 262144 + c div 4096 mod 64 * 4096 + c div 64 mod 64 * 64 + c mod 64))
       (utf8_points bs)"
    using assms by (intro dec4 b) (simp_all only: split4)
  then show ?thesis unfolding ch split4 by simp
qed

lemma utf8_points_char:
  "scalar_value c \<Longrightarrow> utf8_points (utf8_char c @ bs) = map_option ((#) c) (utf8_points bs)"
  using utf8_points_1 [of c bs] utf8_points_2 [of c bs] utf8_points_3 [of c bs] utf8_points_4 [of c bs]
  by (cases "c < 0x80"; cases "c < 0x800"; cases "c < 0x10000") simp_all

lemma utf8_points_encode:
  "list_all scalar_value s \<Longrightarrow>
   utf8_points (concat (map utf8_char s) @ bs) = map_option ((@) s) (utf8_points bs)"
proof (induction s)
  case Nil
  then show ?case by (simp add: option.map_ident)
next
  case (Cons c s)
  then show ?case by (simp add: utf8_points_char option.map_comp comp_def)
qed

lemma unat_of_nat_bytes:
  "\<forall>b \<in> set xs. b < 256 \<Longrightarrow> map unat (map of_nat xs :: bytes) = xs"
  by (induction xs) (simp_all add: unat_of_nat)

lemma utf8_decode_encode:
  assumes "list_all scalar_value s"
  shows "utf8_decode (map of_nat (concat (map utf8_char s))) = Inr s"
proof -
  have "\<forall>b \<in> set (concat (map utf8_char s)). b < 256"
    using assms by (auto simp: list_all_iff scalar_value_def dest: utf8_char_bytes)
  then have "map unat (map of_nat (concat (map utf8_char s)) :: bytes) = concat (map utf8_char s)"
    by (rule unat_of_nat_bytes)
  moreover have "utf8_points (concat (map utf8_char s) @ []) = Some s"
    using utf8_points_encode [OF assms, of "[]"] by simp
  ultimately show ?thesis by (simp add: utf8_decode_def)
qed

section \<open>The round trip\<close>

text \<open>
  What the decoder builds for a value: it has only \<open>list\<close> for an array and only \<open>bytes\<close>
  for a blob, so a \<open>tuple\<close> comes back as a \<open>list\<close> and a \<open>memoryview\<close> as the \<open>bytes\<close> of
  the view; every other value comes back as it is.
\<close>

fun canon :: "native \<Rightarrow> native" where
  "canon (VTuple xs) = VList (map canon xs)"
| "canon (VList xs) = VList (map canon xs)"
| "canon (VMemoryview m) = VBytes (mv_bytes m)"
| "canon (VDict kvs) = VDict (map (\<lambda>(k, v). (canon k, canon v)) kvs)"
| "canon v = v"

text \<open>The scalar keys: \<open>None\<close>, a \<open>bool\<close>, an \<open>int\<close>, a \<open>float\<close>, a \<open>str\<close> or \<open>bytes\<close>.\<close>

fun scalar_key :: "native \<Rightarrow> bool" where
  "scalar_key VNone = True"
| "scalar_key (VBool b) = True"
| "scalar_key (VInt i) = True"
| "scalar_key (VFloat x) = True"
| "scalar_key (VStr s) = True"
| "scalar_key (VBytes b) = True"
| "scalar_key _ = False"

text \<open>The keys of a Python dict, in insertion order: no two of them are the same key.\<close>

fun distinct_keys :: "native list \<Rightarrow> bool" where
  "distinct_keys [] = True"
| "distinct_keys (k # ks) = (list_all (\<lambda>k'. \<not> key_eq k k') ks \<and> distinct_keys ks)"

text \<open>
  The values of the round trip: no \<open>Fd\<close> and no \<open>bytearray\<close>; integers, strings and
  \<open>bytes\<close> that the conversions accept (\<open>leaves_ok\<close>); a \<open>memoryview\<close> only when it is
  contiguous and its length is the number of its bytes, below \<open>2^32\<close> (the length prefix
  written is \<open>len(value)\<close>, and the decoder takes as many bytes); in a dict, keys that
  are scalars.
\<close>

fun plain :: "native \<Rightarrow> bool" where
  "plain (VFd fd) = False"
| "plain (VByteArray b) = False"
| "plain (VMemoryview m) =
     (mv_contiguous m \<and> mv_len m = Some (length (mv_bytes m)) \<and> length (mv_bytes m) < 2 ^ 32)"
| "plain (VList xs) = list_all plain xs"
| "plain (VTuple xs) = list_all plain xs"
| "plain (VDict kvs) =
     (list_all (\<lambda>(k, v). scalar_key k \<and> plain k \<and> plain v) kvs \<and> distinct_keys (map fst kvs))"
| "plain v = leaves_ok v"

declare key_eq.simps [simp del]

lemma marker_value_inj [simp]: "marker_value a = marker_value b \<longleftrightarrow> a = b"
  by (cases a; cases b; simp add: marker_value.simps)

lemma marker_value_range: "0 \<le> marker_value m \<and> marker_value m < 2 ^ 32"
  by (cases m) (simp_all add: marker_value.simps)

lemma length_marker_bytes [simp]: "length (marker_bytes m) = 4"
  by (simp add: marker_bytes_def)

lemma slice_mid:
  "a = int (length xs) \<Longrightarrow> b = a + int (length ys) \<Longrightarrow> py_slice (xs @ ys @ zs) a b = ys"
  by (simp add: py_slice_def slice_index_def nat_add_distrib)

lemma slice_rest:
  "a = int (length xs) \<Longrightarrow> py_slice_from (xs @ ys) a = ys"
  by (simp add: py_slice_from_def slice_index_def)

lemma read_marker [simp]:
  "int_from_bytes (py_slice (marker_bytes m @ rest) 0 4) = Inr (marker_value m)"
proof -
  have "py_slice ([] @ marker_bytes m @ rest) 0 4 = marker_bytes m"
    by (rule slice_mid) simp_all
  moreover have "int_from_bytes (marker_bytes m) = Inr (marker_value m)"
    by (cases m) (simp_all add: marker_bytes_def marker_value.simps int_from_bytes_32)
  ultimately show ?thesis by simp
qed

lemma after_marker [simp]: "py_slice_from (marker_bytes m @ rest) 4 = rest"
  by (rule slice_rest) simp

lemma on_value_simps [simp]:
  "on_value None f = None" "on_value (Some (Inl e)) f = Some (Inl e)"
  "on_value (Some (Inr x)) f = f x"
  by (simp_all add: on_value_def)

lemma dec_none: "deserialize' (Suc n) fds (marker_bytes NONE @ rest) = Some (Inr (rest, Value VNone))"
  by simp

lemma dec_bool:
  "deserialize' (Suc n) fds (marker_bytes (if b then TRUE else FALSE) @ rest)
     = Some (Inr (rest, Value (VBool b)))"
  by simp

lemma dec_array_end:
  "deserialize' (Suc n) fds (marker_bytes ARRAY_END @ rest) = Some (Inr (rest, Marker ARRAY_END))"
  by simp

lemma dec_dict_end:
  "deserialize' (Suc n) fds (marker_bytes DICT_END @ rest) = Some (Inr (rest, Marker DICT_END))"
  by simp

lemma dec_array:
  "deserialize' (Suc n) fds (marker_bytes ARRAY_START @ rest) = deserialize_array n fds rest []"
  by simp

lemma dec_dict:
  "deserialize' (Suc n) fds (marker_bytes DICT_START @ rest) = deserialize_dict n fds rest []"
  by simp


lemma dec_int:
  assumes "- (2 ^ 63) \<le> i" "i < 2 ^ 63"
  shows "deserialize' (Suc n) fds (marker_bytes INT64 @ le_encode 8 (nat (i mod 2 ^ 64)) @ rest)
     = Some (Inr (rest, Value (VInt i)))"
proof -
  let ?p = "le_encode 8 (nat (i mod 2 ^ 64))"
  have a: "py_slice (marker_bytes INT64 @ ?p @ rest) 4 12 = ?p"
    by (rule slice_mid) simp_all
  have b: "py_slice_from (marker_bytes INT64 @ ?p @ rest) 12 = rest"
    using slice_rest [of 12 "marker_bytes INT64 @ ?p" rest] by simp
  show ?thesis
    using a b int_from_bytes_64 [OF assms] by (simp del: le_encode.simps)
qed

lemma dec_float:
  "deserialize' (Suc n) fds (marker_bytes DOUBLE @ float_to_bytes x @ rest)
     = Some (Inr (rest, Value (VFloat x)))"
proof -
  let ?p = "float_to_bytes x"
  have l: "length ?p = 8" by (simp add: float_to_bytes_def)
  have a: "py_slice (marker_bytes DOUBLE @ ?p @ rest) 4 12 = ?p"
    by (rule slice_mid) (simp_all add: l)
  have b: "py_slice_from (marker_bytes DOUBLE @ ?p @ rest) 12 = rest"
    using slice_rest [of 12 "marker_bytes DOUBLE @ ?p" rest] by (simp add: l)
  show ?thesis
    using a b by (simp add: float_from_to_bytes)
qed

lemma sized_slices:
  assumes "length m = 4" "length p < 2 ^ 32"
  shows "int_from_bytes (py_slice (m @ le_encode 4 (length p) @ p @ rest) 4 8) = Inr (int (length p))"
    "py_slice (m @ le_encode 4 (length p) @ p @ rest) 8 (8 + int (length p)) = p"
    "py_slice_from (m @ le_encode 4 (length p) @ p @ rest) (8 + int (length p)) = rest"
proof -
  let ?l = "le_encode 4 (length p)"
  have "py_slice (m @ ?l @ p @ rest) 4 8 = ?l"
    by (rule slice_mid) (simp_all add: assms)
  then show "int_from_bytes (py_slice (m @ ?l @ p @ rest) 4 8) = Inr (int (length p))"
    using assms by (simp add: int_from_bytes_32)
  have "py_slice ((m @ ?l) @ p @ rest) 8 (8 + int (length p)) = p"
    by (rule slice_mid) (simp_all add: assms)
  then show "py_slice (m @ ?l @ p @ rest) 8 (8 + int (length p)) = p" by simp
  have "py_slice_from ((m @ ?l @ p) @ rest) (8 + int (length p)) = rest"
    by (rule slice_rest) (simp add: assms)
  then show "py_slice_from (m @ ?l @ p @ rest) (8 + int (length p)) = rest" by simp
qed

lemma dec_bytes:
  assumes "length p < 2 ^ 32"
  shows "deserialize' (Suc n) fds (marker_bytes BYTES @ le_encode 4 (length p) @ p @ rest)
     = Some (Inr (rest, Value (VBytes p)))"
  using sized_slices [OF length_marker_bytes assms, of BYTES rest]
  by (simp del: le_encode.simps)

lemma dec_str:
  assumes "list_all scalar_value s" "length (concat (map utf8_char s)) < 2 ^ 32"
  shows "deserialize' (Suc n) fds
      (marker_bytes STRING @ le_encode 4 (length (concat (map utf8_char s))) @
       map of_nat (concat (map utf8_char s)) @ rest)
     = Some (Inr (rest, Value (VStr s)))"
proof -
  let ?p = "map of_nat (concat (map utf8_char s)) :: bytes"
  have l: "length ?p < 2 ^ 32" using assms(2) by simp
  from sized_slices [OF length_marker_bytes l, of STRING rest]
  show ?thesis
    by (simp add: utf8_decode_encode [OF assms(1)] del: le_encode.simps)
qed

text \<open>
  \<open>decodes v\<close>: with enough fuel, \<open>_deserialize\<close> reads the bytes of \<open>v\<close> from the front of
  any data, whatever follows them, and returns what follows and \<open>canon v\<close>.
\<close>

definition decodes :: "native \<Rightarrow> bool" where
  "decodes v \<longleftrightarrow>
     (\<forall>n fds. \<exists>N. \<forall>fuel\<ge>N. \<forall>rest.
        deserialize' fuel fds (wire n v @ rest) = Some (Inr (rest, Value (canon v))))"

lemma decodesI:
  "(\<And>n fds fuel rest. deserialize' (Suc fuel) fds (wire n v @ rest) = Some (Inr (rest, Value (canon v))))
   \<Longrightarrow> decodes v"
  unfolding decodes_def
proof (intro allI)
  fix n fds
  assume a: "\<And>n fds fuel rest. deserialize' (Suc fuel) fds (wire n v @ rest) = Some (Inr (rest, Value (canon v)))"
  show "\<exists>N. \<forall>fuel\<ge>N. \<forall>rest. deserialize' fuel fds (wire n v @ rest) = Some (Inr (rest, Value (canon v)))"
  proof (intro exI [of _ "Suc 0"] allI impI)
    fix fuel :: nat and rest
    assume "Suc 0 \<le> fuel"
    then obtain k where "fuel = Suc k" by (cases fuel) auto
    with a show "deserialize' fuel fds (wire n v @ rest) = Some (Inr (rest, Value (canon v)))" by simp
  qed
qed

lemma decodes_leaf:
  "decodes VNone" "decodes (VBool b)" "decodes (VFloat x)"
  "leaves_ok (VInt i) \<Longrightarrow> decodes (VInt i)"
  "leaves_ok (VStr s) \<Longrightarrow> decodes (VStr s)"
  "leaves_ok (VBytes p) \<Longrightarrow> decodes (VBytes p)"
  "plain (VMemoryview m) \<Longrightarrow> decodes (VMemoryview m)"
proof -
  show "decodes VNone" by (rule decodesI) simp
  show "decodes (VBool b)" by (rule decodesI) simp
  show "decodes (VFloat x)" by (rule decodesI) (simp add: dec_float del: deserialize'.simps)
  show "decodes (VInt i)" if "leaves_ok (VInt i)"
    using that dec_int [of i] by (intro decodesI) (simp add: int64_to_bytes_def del: deserialize'.simps le_encode.simps)
  show "decodes (VStr s)" if "leaves_ok (VStr s)"
    using that dec_str [of s] by (intro decodesI) (simp add: utf8_encode_def del: deserialize'.simps le_encode.simps)
  show "decodes (VBytes p)" if "leaves_ok (VBytes p)"
    using that dec_bytes [of p] by (intro decodesI) (simp del: deserialize'.simps le_encode.simps)
  show "decodes (VMemoryview m)" if "plain (VMemoryview m)"
    using that dec_bytes [of "mv_bytes m"]
    by (intro decodesI)
       (simp add: len_memoryview_def add_memoryview_def del: deserialize'.simps le_encode.simps)
qed


lemma decode_items:
  assumes "\<forall>x \<in> set xs. decodes x"
  shows "\<exists>N. \<forall>fuel\<ge>N. \<forall>rest acc.
     deserialize_array fuel fds (wire_items n xs @ marker_bytes ARRAY_END @ rest) acc
       = Some (Inr (rest, Value (VList (acc @ map canon xs))))"
  using assms
proof (induction xs arbitrary: n)
  case Nil
  show ?case
  proof (intro exI [of _ "Suc (Suc 0)"] allI impI)
    fix fuel :: nat and rest acc
    assume "Suc (Suc 0) \<le> fuel"
    then obtain k where "fuel = Suc (Suc k)" by (cases fuel; cases "fuel - 1") auto
    then show "deserialize_array fuel fds (wire_items n [] @ marker_bytes ARRAY_END @ rest) acc
       = Some (Inr (rest, Value (VList (acc @ map canon []))))"
      by simp
  qed
next
  case (Cons x xs)
  from Cons.prems have "decodes x" by simp
  then obtain Nx where Nx: "\<And>fuel rest. Nx \<le> fuel \<Longrightarrow>
      deserialize' fuel fds (wire n x @ rest) = Some (Inr (rest, Value (canon x)))"
    unfolding decodes_def by blast
  from Cons.prems have "\<forall>x \<in> set xs. decodes x" by simp
  from Cons.IH [OF this, of "n + length (fds_of x)"] obtain Ns where Ns: "\<And>fuel rest acc. Ns \<le> fuel \<Longrightarrow>
      deserialize_array fuel fds (wire_items (n + length (fds_of x)) xs @ marker_bytes ARRAY_END @ rest) acc
       = Some (Inr (rest, Value (VList (acc @ map canon xs))))"
    by blast
  show ?case
  proof (intro exI [of _ "Suc (max Nx Ns)"] allI impI)
    fix fuel :: nat and rest acc
    assume "Suc (max Nx Ns) \<le> fuel"
    then obtain m where m: "fuel = Suc m" "Nx \<le> m" "Ns \<le> m" by (cases fuel) auto
    have "deserialize_array (Suc m) fds
        (wire n x @ wire_items (n + length (fds_of x)) xs @ marker_bytes ARRAY_END @ rest) acc
       = Some (Inr (rest, Value (VList (acc @ canon x # map canon xs))))"
      using Nx [OF m(2)] Ns [OF m(3)] by simp
    with m(1) show "deserialize_array fuel fds (wire_items n (x # xs) @ marker_bytes ARRAY_END @ rest) acc
       = Some (Inr (rest, Value (VList (acc @ map canon (x # xs)))))"
      by simp
  qed
qed

lemma dict_store_new:
  "\<forall>k' \<in> fst ` set d. \<not> key_eq k' k \<Longrightarrow> dict_store d k v = d @ [(k, v)]"
  by (induction d) auto

lemma hashable_canon: "scalar_key k \<Longrightarrow> hashable (canon k)"
  by (cases k) simp_all

lemma key_eq_canon: "scalar_key a \<Longrightarrow> scalar_key b \<Longrightarrow> key_eq (canon a) (canon b) = key_eq a b"
  by (cases a; cases b) (simp_all add: key_eq.simps)

lemma decode_entries:
  assumes "\<forall>(k, v) \<in> set kvs. scalar_key k \<and> decodes k \<and> decodes v"
    and "distinct_keys (map fst kvs)"
  shows "\<exists>N. \<forall>fuel\<ge>N. \<forall>rest acc.
     (\<forall>k' \<in> fst ` set acc. \<forall>k \<in> fst ` set kvs. \<not> key_eq k' (canon k)) \<longrightarrow>
     deserialize_dict fuel fds (wire_entries n kvs @ marker_bytes DICT_END @ rest) acc
       = Some (Inr (rest, Value (VDict (acc @ map (\<lambda>(k, v). (canon k, canon v)) kvs))))"
  using assms
proof (induction kvs arbitrary: n)
  case Nil
  show ?case
  proof (intro exI [of _ "Suc (Suc 0)"] allI impI)
    fix fuel :: nat and rest and acc :: "(native \<times> native) list"
    assume "Suc (Suc 0) \<le> fuel"
    then obtain k where "fuel = Suc (Suc k)" by (cases fuel; cases "fuel - 1") auto
    then show "deserialize_dict fuel fds (wire_entries n [] @ marker_bytes DICT_END @ rest) acc
       = Some (Inr (rest, Value (VDict (acc @ map (\<lambda>(k, v). (canon k, canon v)) []))))"
      by simp
  qed
next
  case (Cons kv kvs)
  obtain k v where kv: "kv = (k, v)" by (cases kv)
  from Cons.prems kv have sk: "scalar_key k" and dk: "decodes k" and dv: "decodes v" by simp_all
  let ?n1 = "n + length (fds_of k)"
  let ?n2 = "n + length (fds_of k) + length (fds_of v)"
  from dk obtain Nk where Nk: "\<And>fuel rest. Nk \<le> fuel \<Longrightarrow>
      deserialize' fuel fds (wire n k @ rest) = Some (Inr (rest, Value (canon k)))"
    unfolding decodes_def by blast
  from dv obtain Nv where Nv: "\<And>fuel rest. Nv \<le> fuel \<Longrightarrow>
      deserialize' fuel fds (wire ?n1 v @ rest) = Some (Inr (rest, Value (canon v)))"
    unfolding decodes_def by blast
  from Cons.prems have tl: "\<forall>(k, v) \<in> set kvs. scalar_key k \<and> decodes k \<and> decodes v"
    "distinct_keys (map fst kvs)" by (simp_all add: kv)
  from Cons.IH [OF tl, of ?n2] obtain Ns where Ns: "\<And>fuel rest acc. Ns \<le> fuel \<Longrightarrow>
     (\<forall>k' \<in> fst ` set acc. \<forall>k \<in> fst ` set kvs. \<not> key_eq k' (canon k)) \<Longrightarrow>
     deserialize_dict fuel fds (wire_entries ?n2 kvs @ marker_bytes DICT_END @ rest) acc
       = Some (Inr (rest, Value (VDict (acc @ map (\<lambda>(k, v). (canon k, canon v)) kvs))))"
    by blast
  have fresh: "\<forall>k2 \<in> fst ` set kvs. \<not> key_eq (canon k) (canon k2)"
  proof
    fix k2 assume k2: "k2 \<in> fst ` set kvs"
    with Cons.prems(2) kv have "\<not> key_eq k k2" by (auto simp: list_all_iff)
    moreover from k2 tl(1) have "scalar_key k2" by auto
    ultimately show "\<not> key_eq (canon k) (canon k2)" using sk by (simp add: key_eq_canon)
  qed
  show ?case
  proof (intro exI [of _ "Suc (max Nk (max Nv Ns))"] allI impI)
    fix fuel :: nat and rest and acc :: "(native \<times> native) list"
    assume "Suc (max Nk (max Nv Ns)) \<le> fuel"
    then obtain m where m: "fuel = Suc m" "Nk \<le> m" "Nv \<le> m" "Ns \<le> m" by (cases fuel) auto
    assume acc: "\<forall>k' \<in> fst ` set acc. \<forall>k \<in> fst ` set (kv # kvs). \<not> key_eq k' (canon k)"
    then have "\<forall>k' \<in> fst ` set acc. \<not> key_eq k' (canon k)" by (simp add: kv)
    then have st: "dict_setitem acc (canon k) (canon v) = Inr (acc @ [(canon k, canon v)])"
      using sk by (simp add: dict_setitem_def hashable_canon dict_store_new)
    have acc': "\<forall>k' \<in> fst ` set (acc @ [(canon k, canon v)]). \<forall>k2 \<in> fst ` set kvs. \<not> key_eq k' (canon k2)"
      using acc fresh by auto
    have "deserialize_dict (Suc m) fds
        (wire n k @ wire ?n1 v @ wire_entries ?n2 kvs @ marker_bytes DICT_END @ rest) acc
       = Some (Inr (rest, Value (VDict (acc @ (canon k, canon v) # map (\<lambda>(k, v). (canon k, canon v)) kvs))))"
      using Nk [OF m(2)] Nv [OF m(3)] Ns [OF m(4) acc'] st by simp
    with m(1) kv show "deserialize_dict fuel fds (wire_entries n (kv # kvs) @ marker_bytes DICT_END @ rest) acc
       = Some (Inr (rest, Value (VDict (acc @ map (\<lambda>(k, v). (canon k, canon v)) (kv # kvs)))))"
      by simp
  qed
qed

lemma decodes_array:
  assumes "\<forall>x \<in> set xs. decodes x"
  shows "decodes (VList xs)" "decodes (VTuple xs)"
proof -
  have *: "\<exists>N. \<forall>fuel\<ge>N. \<forall>rest.
        deserialize' fuel fds (marker_bytes ARRAY_START @ wire_items n xs @ marker_bytes ARRAY_END @ rest)
          = Some (Inr (rest, Value (VList (map canon xs))))" for n fds
  proof -
    from decode_items [OF assms, of fds n] obtain N where N: "\<And>fuel rest acc. N \<le> fuel \<Longrightarrow>
       deserialize_array fuel fds (wire_items n xs @ marker_bytes ARRAY_END @ rest) acc
       = Some (Inr (rest, Value (VList (acc @ map canon xs))))" by blast
    show ?thesis
    proof (intro exI [of _ "Suc N"] allI impI)
      fix fuel :: nat and rest
      assume "Suc N \<le> fuel"
      then obtain m where m: "fuel = Suc m" "N \<le> m" by (cases fuel) auto
      show "deserialize' fuel fds (marker_bytes ARRAY_START @ wire_items n xs @ marker_bytes ARRAY_END @ rest)
          = Some (Inr (rest, Value (VList (map canon xs))))"
        using N [OF m(2), of rest "[]"] m(1) by simp
    qed
  qed
  show "decodes (VList xs)" unfolding decodes_def using * by simp
  show "decodes (VTuple xs)" unfolding decodes_def using * by simp
qed

lemma decodes_dict:
  assumes "\<forall>(k, v) \<in> set kvs. scalar_key k \<and> decodes k \<and> decodes v"
    and "distinct_keys (map fst kvs)"
  shows "decodes (VDict kvs)"
  unfolding decodes_def
proof (intro allI)
  fix n fds
  from decode_entries [OF assms, of fds n] obtain N where N: "\<And>fuel rest. N \<le> fuel \<Longrightarrow>
     deserialize_dict fuel fds (wire_entries n kvs @ marker_bytes DICT_END @ rest) []
       = Some (Inr (rest, Value (VDict (map (\<lambda>(k, v). (canon k, canon v)) kvs))))"
    by fastforce
  show "\<exists>N. \<forall>fuel\<ge>N. \<forall>rest.
        deserialize' fuel fds (wire n (VDict kvs) @ rest) = Some (Inr (rest, Value (canon (VDict kvs))))"
  proof (intro exI [of _ "Suc N"] allI impI)
    fix fuel :: nat and rest
    assume "Suc N \<le> fuel"
    then obtain m where m: "fuel = Suc m" "N \<le> m" by (cases fuel) auto
    show "deserialize' fuel fds (wire n (VDict kvs) @ rest) = Some (Inr (rest, Value (canon (VDict kvs))))"
      using N [OF m(2), of rest] m(1) by simp
  qed
qed

lemma plain_decodes: "plain v \<Longrightarrow> decodes v"
proof (induction v)
  case (VList xs)
  then show ?case by (intro decodes_array) (auto simp: list_all_iff)
next
  case (VTuple xs)
  then show ?case by (intro decodes_array) (auto simp: list_all_iff)
next
  case (VDict kvs)
  then show ?case by (intro decodes_dict) (fastforce simp: list_all_iff)+
qed (simp_all add: decodes_leaf)


text \<open>The values that hold no \<open>tuple\<close> and no \<open>memoryview\<close>.\<close>

fun no_views :: "native \<Rightarrow> bool" where
  "no_views (VTuple xs) = False"
| "no_views (VMemoryview b) = False"
| "no_views (VList xs) = list_all no_views xs"
| "no_views (VDict kvs) = list_all (\<lambda>(k, v). no_views k \<and> no_views v) kvs"
| "no_views v = True"

lemma canon_id: "no_views v \<Longrightarrow> canon v = v"
proof (induction v)
  case (VList xs)
  then show ?case by (auto simp: list_all_iff intro: map_idI)
next
  case (VDict kvs)
  then have "map (\<lambda>(k, v). (canon k, canon v)) kvs = kvs"
    by (intro map_idI) (fastforce simp: list_all_iff)
  then show ?case by simp
qed simp_all

lemma plain_props: "plain v \<Longrightarrow> leaves_ok v \<and> \<not> has_bytearray v \<and> fds_of v = []"
proof (induction v)
  case (VList xs)
  then show ?case by (auto simp: list_all_iff list_ex_iff)
next
  case (VTuple xs)
  then show ?case by (auto simp: list_all_iff list_ex_iff)
next
  case (VDict kvs)
  then show ?case by (fastforce simp: list_all_iff list_ex_iff)
qed simp_all

text \<open>
  Why \<open>plain\<close> asks of a \<open>memoryview\<close> that its length is the number of its bytes and that
  it is contiguous. For \<open>memoryview(array('i', [1]))\<close>, one item of four bytes, the length
  prefix written is \<open>1\<close> and four bytes follow it: the decoder takes one byte as the blob
  and finds three bytes left over. For \<open>memoryview(b'abc')[::2]\<close>, which is not
  contiguous, \<open>buffer += value\<close> raises \<open>TypeError\<close>.
\<close>

lemma memoryview_items:
  "serialize (VMemoryview \<lparr>mv_len = Some 1, mv_bytes = [1, 0, 0, 0], mv_contiguous = True\<rparr>)
     = Inr ([6, 0, 0, 0, 1, 0, 0, 0, 1, 0, 0, 0], []) \<and>
   deserialize (Suc 0) [6, 0, 0, 0, 1, 0, 0, 0, 1, 0, 0, 0] [] = Some (Inl DecoderError) \<and>
   serialize (VMemoryview \<lparr>mv_len = Some 2, mv_bytes = [97, 99], mv_contiguous = False\<rparr>)
     = Inl TypeError"
  by code_simp

text \<open>
  C1 (as the code has it). For a value of the round trip (\<open>plain\<close>: no \<open>Fd\<close>, no
  \<open>bytearray\<close>, parts that the conversions accept, each \<open>memoryview\<close> contiguous and as
  long as its bytes, scalar keys in each dict), \<open>serialize\<close> returns bytes and no FDs, and
  \<open>deserialize\<close> of these bytes returns, with enough fuel, the value again: as it is when
  it holds no \<open>tuple\<close> and no \<open>memoryview\<close>, and otherwise with each \<open>tuple\<close> as a \<open>list\<close> and
  each \<open>memoryview\<close> as the \<open>bytes\<close> of the view. The items of a dict come back in their
  order, and a \<open>bool\<close> comes back as a \<open>bool\<close>.
\<close>

theorem round_trip:
  assumes "plain v"
  shows "\<exists>data. serialize v = Inr (data, []) \<and>
           (\<exists>N. \<forall>fuel\<ge>N. deserialize fuel data [] = Some (Inr (canon v))) \<and>
           (no_views v \<longrightarrow> canon v = v)"
proof -
  from plain_props [OF assms] have p: "leaves_ok v" "\<not> has_bytearray v" "fds_of v = []" by simp_all
  have s: "serialize v = Inr (wire 0 v, [])"
    using serialize_result(1) [of v "[]" "[]"] p by (simp add: serialize_def)
  from plain_decodes [OF assms] obtain N where
    N: "\<And>fuel. N \<le> fuel \<Longrightarrow> deserialize' fuel [] (wire 0 v @ []) = Some (Inr ([], Value (canon v)))"
    unfolding decodes_def by blast
  have "\<forall>fuel\<ge>N. deserialize fuel (wire 0 v) [] = Some (Inr (canon v))"
    using N by (simp add: deserialize_def)
  with s canon_id show ?thesis by blast
qed

theorem round_trip_witness:
  "plain (VDict [(VStr [107], VInt (- 7)),
                 (VBytes [1, 2], VList [VBool True, VNone, VFloat 0x400921FB54442D18, VStr [0x10437, 233]]),
                 (VInt 1, VTuple [VMemoryview \<lparr>mv_len = Some 1, mv_bytes = [3], mv_contiguous = True\<rparr>])]) \<and>
   (\<exists>data. serialize (VDict [(VStr [107], VInt (- 7)),
                 (VBytes [1, 2], VList [VBool True, VNone, VFloat 0x400921FB54442D18, VStr [0x10437, 233]]),
                 (VInt 1, VTuple [VMemoryview \<lparr>mv_len = Some 1, mv_bytes = [3], mv_contiguous = True\<rparr>])]) = Inr (data, []) \<and>
      (\<exists>N. \<forall>fuel\<ge>N. deserialize fuel data [] =
         Some (Inr (VDict [(VStr [107], VInt (- 7)),
                 (VBytes [1, 2], VList [VBool True, VNone, VFloat 0x400921FB54442D18, VStr [0x10437, 233]]),
                 (VInt 1, VList [VBytes [3]])]))))"
proof -
  let ?v = "VDict [(VStr [107], VInt (- 7)),
                 (VBytes [1, 2], VList [VBool True, VNone, VFloat 0x400921FB54442D18, VStr [0x10437, 233]]),
                 (VInt 1, VTuple [VMemoryview \<lparr>mv_len = Some 1, mv_bytes = [3], mv_contiguous = True\<rparr>])]"
  have p: "plain ?v" by (simp add: key_eq.simps scalar_value_def utf8_char_def)
  have c: "canon ?v = VDict [(VStr [107], VInt (- 7)),
                 (VBytes [1, 2], VList [VBool True, VNone, VFloat 0x400921FB54442D18, VStr [0x10437, 233]]),
                 (VInt 1, VList [VBytes [3]])]" by simp
  from round_trip [OF p] c p show ?thesis by (simp only:) blast
qed

text \<open>
  C1 as stated fails. A \<open>bytearray\<close> is a byte blob of \<open>NativeType\<close>, and \<open>serialize\<close> raises
  \<open>EncoderError\<close> for it, in the last branch of \<open>_serialize\<close>: there is nothing to decode.
  And a dict may have a tuple as a key: the dict \<open>{(): None}\<close> is serialized as
  \<open>DICT_START ARRAY_START ARRAY_END NONE DICT_END\<close>, the decoder reads the key as the list
  \<open>[]\<close>, and \<open>result[key] = value\<close> raises \<open>TypeError\<close> (a list is unhashable), which is not
  among the exceptions that \<open>deserialize\<close> turns into \<open>DecoderError\<close>.
\<close>

theorem round_trip_counterexample:
  "serialize (VByteArray [120]) = Inl EncoderError \<and>
   serialize (VDict [(VTuple [], VNone)])
     = Inr ([9, 0, 0, 0, 7, 0, 0, 0, 8, 0, 0, 0, 2, 0, 0, 0, 10, 0, 0, 0], []) \<and>
   deserialize 6 [9, 0, 0, 0, 7, 0, 0, 0, 8, 0, 0, 0, 2, 0, 0, 0, 10, 0, 0, 0] []
     = Some (Inl TypeError)"
  by code_simp

section \<open>deserialize: malformed input\<close>

lemma tag_cases:
  "int_from_bytes (py_slice data 0 4) = Inl e \<Longrightarrow> deserialize' (Suc n) fds data = Some (Inl e)"
  "int_from_bytes (py_slice data 0 4) = Inr t \<Longrightarrow>
   deserialize' (Suc n) fds data =
     (if t = marker_value ARRAY_START then deserialize_array n fds (py_slice_from data 4) []
      else if t = marker_value DICT_START then deserialize_dict n fds (py_slice_from data 4) []
      else deserialize' (Suc 0) fds data)"
  by (auto simp: marker_value.simps)

lemma array_step:
  "deserialize' n fds data = None \<Longrightarrow> deserialize_array (Suc n) fds data acc = None"
  "deserialize' n fds data = Some x \<Longrightarrow>
   deserialize_array (Suc n) fds data acc =
     (case x of
        Inl e \<Rightarrow> Some (Inl e)
      | Inr (d, Marker m) \<Rightarrow>
          if m = ARRAY_END then Some (Inr (d, Value (VList acc))) else Some (Inl DecoderError)
      | Inr (d, Value y) \<Rightarrow> deserialize_array n fds d (acc @ [y]))"
  by (simp_all split: sum.splits prod.splits item.splits)

lemma dict_step:
  "deserialize' n fds data = None \<Longrightarrow> deserialize_dict (Suc n) fds data acc = None"
  "deserialize' n fds data = Some x \<Longrightarrow>
   deserialize_dict (Suc n) fds data acc =
     (case x of
        Inl e \<Rightarrow> Some (Inl e)
      | Inr (d1, Marker m) \<Rightarrow>
          if m = DICT_END then Some (Inr (d1, Value (VDict acc))) else Some (Inl DecoderError)
      | Inr (d1, Value k) \<Rightarrow>
          (case deserialize' n fds d1 of
             None \<Rightarrow> None
           | Some (Inl e) \<Rightarrow> Some (Inl e)
           | Some (Inr (d2, Marker m)) \<Rightarrow> Some (Inl DecoderError)
           | Some (Inr (d2, Value y)) \<Rightarrow>
               (case dict_setitem acc k y of
                  Inl e \<Rightarrow> Some (Inl e)
                | Inr acc' \<Rightarrow> deserialize_dict n fds d2 acc')))"
  by (simp_all add: on_value_def split: sum.splits prod.splits item.splits option.splits)

lemma fuel_step:
  "(\<forall>fds data r. deserialize' n fds data = Some r \<longrightarrow> deserialize' (Suc n) fds data = Some r) \<and>
   (\<forall>fds data acc r. deserialize_array n fds data acc = Some r \<longrightarrow>
      deserialize_array (Suc n) fds data acc = Some r) \<and>
   (\<forall>fds data acc r. deserialize_dict n fds data acc = Some r \<longrightarrow>
      deserialize_dict (Suc n) fds data acc = Some r)"
proof (induction n)
  case 0
  show ?case by simp
next
  case (Suc n)
  then have d: "\<And>fds data r. deserialize' n fds data = Some r \<Longrightarrow> deserialize' (Suc n) fds data = Some r"
    and a: "\<And>fds data acc r. deserialize_array n fds data acc = Some r \<Longrightarrow>
      deserialize_array (Suc n) fds data acc = Some r"
    and c: "\<And>fds data acc r. deserialize_dict n fds data acc = Some r \<Longrightarrow>
      deserialize_dict (Suc n) fds data acc = Some r"
    by blast+
  have 1: "deserialize' (Suc (Suc n)) fds data = Some r" if "deserialize' (Suc n) fds data = Some r"
    for fds data r
  proof (cases "int_from_bytes (py_slice data 0 4)")
    case (Inl e)
    with that show ?thesis by (simp only: tag_cases(1))
  next
    case (Inr t)
    note l = tag_cases(2) [OF Inr, of n fds] and r = tag_cases(2) [OF Inr, of "Suc n" fds]
    from that have "(if t = marker_value ARRAY_START then deserialize_array n fds (py_slice_from data 4) []
      else if t = marker_value DICT_START then deserialize_dict n fds (py_slice_from data 4) []
      else deserialize' (Suc 0) fds data) = Some r"
      by (simp only: l)
    then have "(if t = marker_value ARRAY_START then deserialize_array (Suc n) fds (py_slice_from data 4) []
      else if t = marker_value DICT_START then deserialize_dict (Suc n) fds (py_slice_from data 4) []
      else deserialize' (Suc 0) fds data) = Some r"
      by (auto simp del: deserialize'.simps deserialize_array.simps deserialize_dict.simps
          split: if_splits dest: a c)
    then show ?thesis by (simp only: r)
  qed
  have 2: "deserialize_array (Suc (Suc n)) fds data acc = Some r"
    if "deserialize_array (Suc n) fds data acc = Some r" for fds data acc r
  proof (cases "deserialize' n fds data")
    case None
    from that array_step(1) [OF None, of acc] show ?thesis by simp
  next
    case (Some x)
    from that show ?thesis
      unfolding array_step(2) [OF Some] array_step(2) [OF d [OF Some]]
      by (auto simp del: deserialize'.simps deserialize_array.simps deserialize_dict.simps
          split: sum.splits prod.splits item.splits if_splits dest: a)
  qed
  have 3: "deserialize_dict (Suc (Suc n)) fds data acc = Some r"
    if "deserialize_dict (Suc n) fds data acc = Some r" for fds data acc r
  proof (cases "deserialize' n fds data")
    case None
    from that dict_step(1) [OF None, of acc] show ?thesis by simp
  next
    case (Some x)
    from that show ?thesis
      unfolding dict_step(2) [OF Some] dict_step(2) [OF d [OF Some]]
      by (auto simp del: deserialize'.simps deserialize_array.simps deserialize_dict.simps
          split: sum.splits prod.splits item.splits if_splits option.splits dest: c dest!: d)
  qed
  from 1 2 3 show ?case by blast
qed

lemma fuel_mono:
  assumes "n \<le> m"
  shows "deserialize' n fds data = Some r \<Longrightarrow> deserialize' m fds data = Some r"
    and "deserialize_array n fds data acc = Some r \<Longrightarrow> deserialize_array m fds data acc = Some r"
    and "deserialize_dict n fds data kvs = Some r \<Longrightarrow> deserialize_dict m fds data kvs = Some r"
  using assms
proof (induction m)
  case 0
  { case 1 then show ?case by simp }
  { case 2 then show ?case by simp }
  { case 3 then show ?case by simp }
next
  case (Suc m)
  { case 1 then show ?case using Suc(1) fuel_step [of m] by (cases "n = Suc m") auto }
  { case 2 then show ?case using Suc(2) fuel_step [of m] by (cases "n = Suc m") auto }
  { case 3 then show ?case using Suc(3) fuel_step [of m] by (cases "n = Suc m") auto }
qed


text \<open>
  \<open>reads fds data d\<close>: the call \<open>_deserialize(fds, data)\<close> comes to the call
  \<open>_deserialize(fds, d)\<close>. It is that call itself, or \<open>data\<close> starts an array or a dict
  and the call is made for one of its items (a key or a value, for a dict), or inside
  one, after the loop has read the items before it (\<open>reads_array\<close>, \<open>reads_dict\<close>: the
  loops, from the data they start at).
\<close>

inductive reads :: "Fd list \<Rightarrow> bytes \<Rightarrow> bytes \<Rightarrow> bool"
  and reads_array :: "Fd list \<Rightarrow> bytes \<Rightarrow> bytes \<Rightarrow> bool"
  and reads_dict :: "Fd list \<Rightarrow> bytes \<Rightarrow> bytes \<Rightarrow> bool"
where
  here: "reads fds data data"
| in_array:
    "int_from_bytes (py_slice data 0 4) = Inr (marker_value ARRAY_START) \<Longrightarrow>
     reads_array fds (py_slice_from data 4) d \<Longrightarrow> reads fds data d"
| in_dict:
    "int_from_bytes (py_slice data 0 4) = Inr (marker_value DICT_START) \<Longrightarrow>
     reads_dict fds (py_slice_from data 4) d \<Longrightarrow> reads fds data d"
| item: "reads fds data d \<Longrightarrow> reads_array fds data d"
| next_item:
    "deserialize' n fds data = Some (Inr (data', Value x)) \<Longrightarrow>
     reads_array fds data' d \<Longrightarrow> reads_array fds data d"
| key: "reads fds data d \<Longrightarrow> reads_dict fds data d"
| val:
    "deserialize' n fds data = Some (Inr (data', Value k)) \<Longrightarrow>
     reads fds data' d \<Longrightarrow> reads_dict fds data d"
| next_entry:
    "deserialize' n fds data = Some (Inr (data1, Value k)) \<Longrightarrow>
     deserialize' m fds data1 = Some (Inr (data2, Value x)) \<Longrightarrow> hashable k \<Longrightarrow>
     reads_dict fds data2 d \<Longrightarrow> reads_dict fds data d"

text \<open>The first four bytes of the data are read as a tag outside \<open>0 .. 11\<close>.\<close>

definition unknown_tag :: "bytes \<Rightarrow> bool" where
  "unknown_tag d = (case int_from_bytes (py_slice d 0 4) of Inl e \<Rightarrow> False | Inr t \<Rightarrow> t < 0 \<or> 11 < t)"

lemma unknown_tag_raises:
  assumes "unknown_tag d"
  shows "deserialize' (Suc n) fds d = Some (Inl DecoderError)"
proof -
  from assms obtain t where t: "int_from_bytes (py_slice d 0 4) = Inr t" "t < 0 \<or> 11 < t"
    by (auto simp: unknown_tag_def split: sum.splits)
  have "t \<noteq> marker_value m" for m using t(2) by (cases m) (auto simp: marker_value.simps)
  then show ?thesis using t(1) by simp
qed

lemma reads_unknown_tag:
  "reads fds data d \<Longrightarrow> unknown_tag d \<Longrightarrow>
     \<exists>N. \<forall>fuel\<ge>N. deserialize' fuel fds data = Some (Inl DecoderError)"
  "reads_array fds data d \<Longrightarrow> unknown_tag d \<Longrightarrow>
     \<exists>N. \<forall>fuel\<ge>N. \<forall>acc. deserialize_array fuel fds data acc = Some (Inl DecoderError)"
  "reads_dict fds data d \<Longrightarrow> unknown_tag d \<Longrightarrow>
     \<exists>N. \<forall>fuel\<ge>N. \<forall>acc. deserialize_dict fuel fds data acc = Some (Inl DecoderError)"
proof (induction rule: reads_reads_array_reads_dict.inducts)
  case (here fds data)
  show ?case
  proof (intro exI [of _ "Suc 0"] allI impI)
    fix fuel :: nat assume "Suc 0 \<le> fuel"
    then obtain k where "fuel = Suc k" by (cases fuel) auto
    with unknown_tag_raises [OF here] show "deserialize' fuel fds data = Some (Inl DecoderError)"
      by simp
  qed
next
  case (in_array data fds d)
  from in_array.IH [OF in_array.prems] obtain N where
    N: "\<And>fuel acc. N \<le> fuel \<Longrightarrow> deserialize_array fuel fds (py_slice_from data 4) acc = Some (Inl DecoderError)"
    by blast
  show ?case
  proof (intro exI [of _ "Suc N"] allI impI)
    fix fuel :: nat assume "Suc N \<le> fuel"
    then obtain k where k: "fuel = Suc k" "N \<le> k" by (cases fuel) auto
    have "deserialize' (Suc k) fds data = deserialize_array k fds (py_slice_from data 4) []"
      by (simp add: tag_cases(2) [OF in_array.hyps(1), of k fds]
          del: deserialize'.simps deserialize_array.simps deserialize_dict.simps)
    with N [OF k(2)] k(1) show "deserialize' fuel fds data = Some (Inl DecoderError)"
      by (simp del: deserialize'.simps deserialize_array.simps deserialize_dict.simps)
  qed
next
  case (in_dict data fds d)
  from in_dict.IH [OF in_dict.prems] obtain N where
    N: "\<And>fuel acc. N \<le> fuel \<Longrightarrow> deserialize_dict fuel fds (py_slice_from data 4) acc = Some (Inl DecoderError)"
    by blast
  show ?case
  proof (intro exI [of _ "Suc N"] allI impI)
    fix fuel :: nat assume "Suc N \<le> fuel"
    then obtain k where k: "fuel = Suc k" "N \<le> k" by (cases fuel) auto
    have "deserialize' (Suc k) fds data = deserialize_dict k fds (py_slice_from data 4) []"
      by (simp add: tag_cases(2) [OF in_dict.hyps(1), of k fds]
          del: deserialize'.simps deserialize_array.simps deserialize_dict.simps)
    with N [OF k(2)] k(1) show "deserialize' fuel fds data = Some (Inl DecoderError)"
      by (simp del: deserialize'.simps deserialize_array.simps deserialize_dict.simps)
  qed
next
  case (item fds data d)
  from item.IH [OF item.prems] obtain N where
    N: "\<And>fuel. N \<le> fuel \<Longrightarrow> deserialize' fuel fds data = Some (Inl DecoderError)"
    by blast
  show ?case
  proof (intro exI [of _ "Suc N"] allI impI)
    fix fuel :: nat and acc assume "Suc N \<le> fuel"
    then obtain k where k: "fuel = Suc k" "N \<le> k" by (cases fuel) auto
    show "deserialize_array fuel fds data acc = Some (Inl DecoderError)"
      unfolding k(1) array_step(2) [OF N [OF k(2)]] by simp
  qed
next
  case (next_item n fds data data' x d)
  from next_item.IH [OF next_item.prems] obtain N where
    N: "\<And>fuel acc. N \<le> fuel \<Longrightarrow> deserialize_array fuel fds data' acc = Some (Inl DecoderError)"
    by blast
  show ?case
  proof (intro exI [of _ "Suc (max n N)"] allI impI)
    fix fuel :: nat and acc assume "Suc (max n N) \<le> fuel"
    then obtain k where k: "fuel = Suc k" "n \<le> k" "N \<le> k" by (cases fuel) auto
    note 1 = fuel_mono(1) [OF k(2) next_item.hyps(1)]
    show "deserialize_array fuel fds data acc = Some (Inl DecoderError)"
      unfolding k(1) array_step(2) [OF 1] using N [OF k(3)] by simp
  qed
next
  case (key fds data d)
  from key.IH [OF key.prems] obtain N where
    N: "\<And>fuel. N \<le> fuel \<Longrightarrow> deserialize' fuel fds data = Some (Inl DecoderError)"
    by blast
  show ?case
  proof (intro exI [of _ "Suc N"] allI impI)
    fix fuel :: nat and acc assume "Suc N \<le> fuel"
    then obtain k where k: "fuel = Suc k" "N \<le> k" by (cases fuel) auto
    show "deserialize_dict fuel fds data acc = Some (Inl DecoderError)"
      unfolding k(1) dict_step(2) [OF N [OF k(2)]] by simp
  qed
next
  case (val n fds data data' k d)
  from val.IH [OF val.prems] obtain N where
    N: "\<And>fuel. N \<le> fuel \<Longrightarrow> deserialize' fuel fds data' = Some (Inl DecoderError)"
    by blast
  show ?case
  proof (intro exI [of _ "Suc (max n N)"] allI impI)
    fix fuel :: nat and acc assume "Suc (max n N) \<le> fuel"
    then obtain j where j: "fuel = Suc j" "n \<le> j" "N \<le> j" by (cases fuel) auto
    note 1 = fuel_mono(1) [OF j(2) val.hyps(1)]
    show "deserialize_dict fuel fds data acc = Some (Inl DecoderError)"
      unfolding j(1) dict_step(2) [OF 1] using N [OF j(3)] by simp
  qed
next
  case (next_entry n fds data data1 k m data2 x d)
  from next_entry.IH [OF next_entry.prems] obtain N where
    N: "\<And>fuel acc. N \<le> fuel \<Longrightarrow> deserialize_dict fuel fds data2 acc = Some (Inl DecoderError)"
    by blast
  show ?case
  proof (intro exI [of _ "Suc (max n (max m N))"] allI impI)
    fix fuel :: nat and acc assume "Suc (max n (max m N)) \<le> fuel"
    then obtain j where j: "fuel = Suc j" "n \<le> j" "m \<le> j" "N \<le> j" by (cases fuel) auto
    note 1 = fuel_mono(1) [OF j(2) next_entry.hyps(1)]
    note 2 = fuel_mono(1) [OF j(3) next_entry.hyps(2)]
    show "deserialize_dict fuel fds data acc = Some (Inl DecoderError)"
      unfolding j(1) dict_step(2) [OF 1] using 2 N [OF j(4)] next_entry.hyps(3)
      by (simp add: dict_setitem_def)
  qed
qed

text \<open>
  C7. \<open>deserialize\<close> raises \<open>DecoderError\<close> (i) when \<open>_deserialize\<close> returns with bytes left
  over, (ii) when the data start with the tag of \<open>ARRAY_END\<close> or \<open>DICT_END\<close>, and (iii) when
  the decoder comes to data that start with a tag outside \<open>0 .. 11\<close>, at the top or at any
  depth inside arrays and dicts.
\<close>

theorem malformed_input:
  "(deserialize' fuel fds data = Some (Inr (rest, x)) \<and> rest \<noteq> [] \<longrightarrow>
      deserialize fuel data fds = Some (Inl DecoderError)) \<and>
   (int_from_bytes (py_slice data 0 4) = Inr t \<and>
      (t = marker_value ARRAY_END \<or> t = marker_value DICT_END) \<longrightarrow>
      deserialize (Suc n) data fds = Some (Inl DecoderError)) \<and>
   (reads fds data d \<and> unknown_tag d \<longrightarrow>
      (\<exists>N. \<forall>fuel\<ge>N. deserialize fuel data fds = Some (Inl DecoderError)))"
proof (intro conjI impI)
  assume "deserialize' fuel fds data = Some (Inr (rest, x)) \<and> rest \<noteq> []"
  then show "deserialize fuel data fds = Some (Inl DecoderError)"
    by (simp add: deserialize_def)
next
  assume a: "int_from_bytes (py_slice data 0 4) = Inr t \<and>
      (t = marker_value ARRAY_END \<or> t = marker_value DICT_END)"
  then have "deserialize' (Suc n) fds data = Some (Inr (py_slice_from data 4, Marker ARRAY_END)) \<or>
    deserialize' (Suc n) fds data = Some (Inr (py_slice_from data 4, Marker DICT_END))"
    by auto
  then show "deserialize (Suc n) data fds = Some (Inl DecoderError)"
    by (auto simp: deserialize_def simp del: deserialize'.simps)
next
  assume "reads fds data d \<and> unknown_tag d"
  with reads_unknown_tag(1) [of fds data d] obtain N where
    "\<forall>fuel\<ge>N. deserialize' fuel fds data = Some (Inl DecoderError)" by blast
  then have "\<forall>fuel\<ge>N. deserialize fuel data fds = Some (Inl DecoderError)"
    by (simp add: deserialize_def)
  then show "\<exists>N. \<forall>fuel\<ge>N. deserialize fuel data fds = Some (Inl DecoderError)" ..
qed


theorem malformed_input_witness:
  "deserialize (Suc 0) [2, 0, 0, 0, 0] [] = Some (Inl DecoderError) \<and>
   deserialize (Suc 0) [8, 0, 0, 0] [] = Some (Inl DecoderError) \<and>
   reads [] [7, 0, 0, 0, 2, 0, 0, 0, 12, 0, 0, 0] [12, 0, 0, 0] \<and>
   unknown_tag [12, 0, 0, 0] \<and>
   (\<exists>N. \<forall>fuel\<ge>N. deserialize fuel [7, 0, 0, 0, 2, 0, 0, 0, 12, 0, 0, 0] [] = Some (Inl DecoderError))"
proof -
  have h1: "deserialize' (Suc 0) [] [2, 0, 0, 0, 0] = Some (Inr ([0], Value VNone)) \<and> [0 :: byte] \<noteq> []"
    by code_simp
  have h2: "int_from_bytes (py_slice [8 :: byte, 0, 0, 0] 0 4) = Inr 8 \<and>
      ((8 :: int) = marker_value ARRAY_END \<or> (8 :: int) = marker_value DICT_END)"
    by code_simp
  have a: "int_from_bytes (py_slice [7 :: byte, 0, 0, 0, 2, 0, 0, 0, 12, 0, 0, 0] 0 4)
      = Inr (marker_value ARRAY_START)"
    by code_simp
  have b: "py_slice_from [7 :: byte, 0, 0, 0, 2, 0, 0, 0, 12, 0, 0, 0] 4 = [2, 0, 0, 0, 12, 0, 0, 0]"
    by code_simp
  have c: "deserialize' (Suc 0) [] [2, 0, 0, 0, 12, 0, 0, 0] = Some (Inr ([12, 0, 0, 0], Value VNone))"
    by code_simp
  have "reads_array [] [2, 0, 0, 0, 12, 0, 0, 0] [12, 0, 0, 0]"
    by (rule next_item [OF c]) (rule item, rule here)
  with in_array [OF a, of "[]" "[12, 0, 0, 0]"] b
  have r: "reads [] [7, 0, 0, 0, 2, 0, 0, 0, 12, 0, 0, 0] [12, 0, 0, 0]" by simp
  have u: "unknown_tag [12, 0, 0, 0]" by code_simp
  from malformed_input [where fuel = "Suc 0" and fds = "[]" and data = "[2, 0, 0, 0, 0]"
      and rest = "[0]" and x = "Value VNone"] h1
  have 1: "deserialize (Suc 0) [2, 0, 0, 0, 0] [] = Some (Inl DecoderError)" by blast
  from malformed_input [where data = "[8, 0, 0, 0]" and t = 8 and n = 0 and fds = "[]"] h2
  have 2: "deserialize (Suc 0) [8, 0, 0, 0] [] = Some (Inl DecoderError)" by blast
  from malformed_input [where fds = "[]" and data = "[7, 0, 0, 0, 2, 0, 0, 0, 12, 0, 0, 0]"
      and d = "[12, 0, 0, 0]"] r u
  have 3: "\<exists>N. \<forall>fuel\<ge>N. deserialize fuel [7, 0, 0, 0, 2, 0, 0, 0, 12, 0, 0, 0] [] = Some (Inl DecoderError)"
    by blast
  from 1 2 3 r u show ?thesis by blast
qed

end
